theory Spec2Isabelle
  imports Main "HOL-Library.Word"
begin

section \<open>The discrete weighted transform of \<^verbatim>\<open>util/dwt_gpu.hpp\<close>\<close>

text \<open>
  The header defines four kernel functors (\<^verbatim>\<open>DwtGapLE4\<close>, \<^verbatim>\<open>DwtLargeGap\<close>,
  \<^verbatim>\<open>DwtLastRound\<close>, \<^verbatim>\<open>DwtLastRoundScalar\<close>) and the orchestrator \<^verbatim>\<open>Dwt_gpu\<close>,
  whose \<^verbatim>\<open>operator()\<close> submits one \<^verbatim>\<open>parallel_for\<close> per stage and waits for it.

  \<^item> \<^verbatim>\<open>ValueType\<close> is an unsigned machine integer: \<open>'a word\<close>, of any width.
  \<^item> \<^verbatim>\<open>RootType\<close> and \<^verbatim>\<open>ScalarType\<close> stay type parameters \<open>'r\<close> and \<open>'s\<close>.
  \<^item> \<^verbatim>\<open>std::size_t\<close> indices and counts are \<open>nat\<close>: they index a buffer of \<open>n\<close> slots
    held in memory, so they stay far below \<open>2 ^ 64\<close>.
  \<^item> The field \<^verbatim>\<open>rounds_\<close> of the four functors is an \<^verbatim>\<open>int\<close> of 32 bits, initialised
    from the \<^verbatim>\<open>size_t\<close> \<^verbatim>\<open>total_r\<close>: the conversion and the index \<^verbatim>\<open>rounds_ + i\<close> are
    modelled with their wrap-around (\<open>int_of_size_t\<close>, \<open>root_index\<close>).
  \<^item> \<^verbatim>\<open>values_\<close> and \<^verbatim>\<open>roots_\<close> are pointers to arrays: lists, read and written by index.
    An access outside the array, a division by zero and a null \<^verbatim>\<open>scalar_\<close> are
    undefined behaviour in C++; here the kernel yields \<open>None\<close>.
  \<^item> The trailing underscore of the C++ member names is dropped.
\<close>

subsection \<open>The arithmetic primitives of \<^verbatim>\<open>util/dwt_arith.h\<close>\<close>

text \<open>
  The kernels call six functions that \<^verbatim>\<open>util/dwt_arith.h\<close> declares. That header is
  not part of the sources at hand, so the kernels take the six functions as a parameter.
\<close>

record ('v, 'r, 's) dwt_arith =
  dwt_guard :: "'v \<Rightarrow> 'v \<Rightarrow> 'v"
  dwt_mul_root :: "'v \<Rightarrow> 'r \<Rightarrow> 'v \<Rightarrow> 'v"
  dwt_add :: "'v \<Rightarrow> 'v \<Rightarrow> 'v"
  dwt_sub :: "'v \<Rightarrow> 'v \<Rightarrow> 'v \<Rightarrow> 'v"
  dwt_mul_scalar :: "'v \<Rightarrow> 's \<Rightarrow> 'v \<Rightarrow> 'v"
  dwt_mul_root_scalar :: "'r \<Rightarrow> 's \<Rightarrow> 'v \<Rightarrow> 'r"

subsection \<open>The root index\<close>

text \<open>The constructors of the functors take \<^verbatim>\<open>int rounds\<close> and are called with the
  \<^verbatim>\<open>std::size_t\<close> \<^verbatim>\<open>total_r\<close>: the conversion keeps the low 32 bits, read in two's
  complement.\<close>

definition int_of_size_t :: "nat \<Rightarrow> int" where
  "int_of_size_t n = sint (word_of_nat n :: 32 word)"

text \<open>The index \<^verbatim>\<open>rounds_ + i\<close> of \<^verbatim>\<open>roots_[rounds_ + i]\<close>: \<open>i\<close> is a \<^verbatim>\<open>size_t\<close>, so the
  \<^verbatim>\<open>int\<close> is converted to \<^verbatim>\<open>size_t\<close> and the sum is taken modulo \<open>2 ^ 64\<close>.\<close>

definition root_index :: "int \<Rightarrow> nat \<Rightarrow> nat" where
  "root_index rounds i = unat (word_of_int rounds + word_of_nat i :: 64 word)"

subsection \<open>The kernels\<close>

text \<open>
  The statement sequence shared by \<^verbatim>\<open>DwtGapLE4\<close> and the loop body of \<^verbatim>\<open>DwtLargeGap\<close>,
  on the slots \<open>x\<close> and \<open>y\<close> (the pointers of the source, as indices into \<^verbatim>\<open>values_\<close>):
  \<^verbatim>\<open>u = dwt_guard(*x, two_times_modulus_); v = dwt_mul_root(*y, r, modulus_);
  *x = dwt_add(u, v); *y = dwt_sub(u, v, two_times_modulus_);\<close>
\<close>

definition butterfly ::
  "('a::len word, 'r, 's) dwt_arith \<Rightarrow> 'a word \<Rightarrow> 'r \<Rightarrow> nat \<Rightarrow> nat \<Rightarrow> 'a word list
     \<Rightarrow> 'a word list option" where
  "butterfly A modulus r x y vs =
     (if x < length vs \<and> y < length vs then
        let two_times_modulus = push_bit 1 modulus;
            u = dwt_guard A (vs ! x) two_times_modulus;
            v = dwt_mul_root A (vs ! y) r modulus;
            vs1 = vs[x := dwt_add A u v]
        in Some (vs1[y := dwt_sub A u v two_times_modulus])
      else None)"

text \<open>\<^verbatim>\<open>DwtGapLE4::operator()(ind)\<close>, with the fields \<^verbatim>\<open>gap_\<close>, \<^verbatim>\<open>rounds_\<close>, \<^verbatim>\<open>modulus_\<close>
  and \<^verbatim>\<open>roots_\<close> of the functor.\<close>

definition DwtGapLE4_op ::
  "('a::len word, 'r, 's) dwt_arith \<Rightarrow> nat \<Rightarrow> int \<Rightarrow> 'a word \<Rightarrow> 'r list \<Rightarrow> nat
     \<Rightarrow> 'a word list \<Rightarrow> 'a word list option" where
  "DwtGapLE4_op A gap rounds modulus roots ind vs =
     (if gap = 0 then None
      else
        let i = ind div gap;
            j = ind mod gap
        in if root_index rounds i < length roots then
             let r = roots ! root_index rounds i;
                 offset = i * push_bit 1 gap + j;
                 x = offset;
                 y = x + gap
             in butterfly A modulus r x y vs
           else None)"

text \<open>The loop \<^verbatim>\<open>for (int k = 0; k < Unroll; k++)\<close> of \<^verbatim>\<open>DwtLargeGap\<close>; the first argument
  counts the iterations left, \<open>x\<close> and \<open>y\<close> are the two pointers, incremented after each
  butterfly.\<close>

fun unrolled ::
  "('a::len word, 'r, 's) dwt_arith \<Rightarrow> 'a word \<Rightarrow> 'r \<Rightarrow> nat \<Rightarrow> nat \<Rightarrow> nat \<Rightarrow> 'a word list
     \<Rightarrow> 'a word list option" where
  "unrolled A modulus r 0 x y vs = Some vs"
| "unrolled A modulus r (Suc k) x y vs =
     (case butterfly A modulus r x y vs of
        None \<Rightarrow> None
      | Some vs' \<Rightarrow> unrolled A modulus r k (x + 1) (y + 1) vs')"

text \<open>\<^verbatim>\<open>DwtLargeGap<ValueType, RootType, Unroll>::operator()(ind)\<close>.\<close>

definition DwtLargeGap_op ::
  "('a::len word, 'r, 's) dwt_arith \<Rightarrow> nat \<Rightarrow> nat \<Rightarrow> int \<Rightarrow> 'a word \<Rightarrow> 'r list \<Rightarrow> nat
     \<Rightarrow> 'a word list \<Rightarrow> 'a word list option" where
  "DwtLargeGap_op A Unroll gap rounds modulus roots ind vs =
     (if gap div Unroll = 0 then None
      else
        let i = ind div (gap div Unroll);
            j = ind mod (gap div Unroll)
        in if root_index rounds i < length roots then
             let r = roots ! root_index rounds i;
                 offset = i * push_bit 1 gap + j * Unroll;
                 x = offset;
                 y = x + gap
             in unrolled A modulus r Unroll x y vs
           else None)"

text \<open>\<^verbatim>\<open>DwtLastRound::operator()(i)\<close>: the butterfly on the slots \<open>2 * i\<close> and \<open>2 * i + 1\<close>,
  followed by the two conditional subtractions on each result.\<close>

definition DwtLastRound_op ::
  "('a::len word, 'r, 's) dwt_arith \<Rightarrow> int \<Rightarrow> 'a word \<Rightarrow> 'r list \<Rightarrow> nat
     \<Rightarrow> 'a word list \<Rightarrow> 'a word list option" where
  "DwtLastRound_op A rounds modulus roots i vs =
     (if root_index rounds i < length roots \<and> 2 * i + 1 < length vs then
        let two_times_modulus = push_bit 1 modulus;
            r = roots ! root_index rounds i;
            u = vs ! (2 * i);
            v = vs ! (2 * i + 1);
            u = dwt_guard A u two_times_modulus;
            v = dwt_mul_root A v r modulus;
            v0 = dwt_add A u v;
            v1 = dwt_sub A u v two_times_modulus;
            v0 = v0 - (if v0 \<ge> two_times_modulus then two_times_modulus else 0);
            u = v0 - (if v0 \<ge> modulus then modulus else 0);
            v1 = v1 - (if v1 \<ge> two_times_modulus then two_times_modulus else 0);
            v = v1 - (if v1 \<ge> modulus then modulus else 0);
            vs1 = vs[2 * i := u]
        in Some (vs1[2 * i + 1 := v])
      else None)"

text \<open>\<^verbatim>\<open>DwtLastRoundScalar::operator()(i)\<close>; \<open>sc\<close> is \<^verbatim>\<open>*scalar_\<close>.\<close>

definition DwtLastRoundScalar_op ::
  "('a::len word, 'r, 's) dwt_arith \<Rightarrow> int \<Rightarrow> 'a word \<Rightarrow> 'r list \<Rightarrow> 's \<Rightarrow> nat
     \<Rightarrow> 'a word list \<Rightarrow> 'a word list option" where
  "DwtLastRoundScalar_op A rounds modulus roots sc i vs =
     (if root_index rounds i < length roots \<and> 2 * i + 1 < length vs then
        let two_times_modulus = push_bit 1 modulus;
            r = roots ! root_index rounds i;
            u = vs ! (2 * i);
            v = vs ! (2 * i + 1);
            scaled_r = dwt_mul_root_scalar A r sc modulus;
            u = dwt_mul_scalar A (dwt_guard A u two_times_modulus) sc modulus;
            v = dwt_mul_root A v scaled_r modulus;
            v0 = dwt_add A u v;
            v1 = dwt_sub A u v two_times_modulus;
            v0 = v0 - (if v0 \<ge> two_times_modulus then two_times_modulus else 0);
            v = v0 - (if v0 \<ge> modulus then modulus else 0);
            v1 = v1 - (if v1 \<ge> two_times_modulus then two_times_modulus else 0);
            u = v1 - (if v1 \<ge> modulus then modulus else 0);
            vs1 = vs[2 * i := u]
        in Some (vs1[2 * i + 1 := v])
      else None)"

subsection \<open>Dispatch\<close>

text \<open>
  A kernel functor as the orchestrator constructs it: the fields that differ between
  the launches, the template parameter \<^verbatim>\<open>Unroll\<close> (4 at its one instantiation), the
  \<^verbatim>\<open>std::size_t\<close> \<^verbatim>\<open>gap_\<close> and the \<^verbatim>\<open>int\<close> \<^verbatim>\<open>rounds_\<close>. The pointers and the modulus are
  those of the \<^verbatim>\<open>Dwt_gpu\<close> object.
\<close>

datatype kernel =
    DwtGapLE4 nat int
  | DwtLargeGap nat nat int
  | DwtLastRound int
  | DwtLastRoundScalar int

text \<open>The fields of the class \<^verbatim>\<open>Dwt_gpu\<close> that the transform reads. A null \<^verbatim>\<open>scalar_\<close>
  is \<open>None\<close>.\<close>

record ('v, 'r, 's) Dwt_gpu =
  log_n :: nat
  modulus :: 'v
  roots :: "'r list"
  scalar :: "'s option"

fun kernel_op ::
  "('a::len word, 'r, 's) dwt_arith \<Rightarrow> ('a word, 'r, 's) Dwt_gpu \<Rightarrow> kernel \<Rightarrow> nat
     \<Rightarrow> 'a word list \<Rightarrow> 'a word list option" where
  "kernel_op A obj (DwtGapLE4 gap rounds) ind vs =
     DwtGapLE4_op A gap rounds (modulus obj) (roots obj) ind vs"
| "kernel_op A obj (DwtLargeGap Unroll gap rounds) ind vs =
     DwtLargeGap_op A Unroll gap rounds (modulus obj) (roots obj) ind vs"
| "kernel_op A obj (DwtLastRound rounds) ind vs =
     DwtLastRound_op A rounds (modulus obj) (roots obj) ind vs"
| "kernel_op A obj (DwtLastRoundScalar rounds) ind vs =
     (case scalar obj of
        None \<Rightarrow> None
      | Some sc \<Rightarrow> DwtLastRoundScalar_op A rounds (modulus obj) (roots obj) sc ind vs)"

text \<open>
  \<^verbatim>\<open>h.parallel_for(N, K)\<close> runs \<open>K\<close> on every unit index below \<open>N\<close>. The units of one launch
  touch pairwise disjoint slots (shown below), so the order does not matter; the model
  runs them by increasing index.
\<close>

definition parallel_for ::
  "nat \<Rightarrow> (nat \<Rightarrow> 'b \<Rightarrow> 'b option) \<Rightarrow> 'b \<Rightarrow> 'b option" where
  "parallel_for N K vs = fold (\<lambda>ind acc. Option.bind acc (K ind)) [0..<N] (Some vs)"

text \<open>The device as the queue sees it: the buffer \<^verbatim>\<open>values_\<close> and the launches
  submitted so far, each with its number of units.\<close>

record 'v device =
  vals :: "'v list"
  submitted :: "(nat \<times> kernel) list"

text \<open>\<^verbatim>\<open>queue_.submit([&](handler& h) { h.parallel_for(N, K); }).wait()\<close>\<close>

definition submit ::
  "('a::len word, 'r, 's) dwt_arith \<Rightarrow> ('a word, 'r, 's) Dwt_gpu \<Rightarrow> nat \<Rightarrow> kernel
     \<Rightarrow> 'a word device \<Rightarrow> 'a word device option" where
  "submit A obj N K d =
     (case parallel_for N (kernel_op A obj K) (vals d) of
        None \<Rightarrow> None
      | Some vs \<Rightarrow> Some \<lparr>vals = vs, submitted = submitted d @ [(N, K)]\<rparr>)"

subsection \<open>The orchestrator \<^verbatim>\<open>Dwt_gpu::operator()\<close>\<close>

text \<open>The local variables \<^verbatim>\<open>gap\<close>, \<^verbatim>\<open>m\<close> and \<^verbatim>\<open>total_r\<close> of the stage loop, with the
  device.\<close>

record 'v loop_vars =
  cur_gap :: nat
  cur_m :: nat
  cur_total_r :: nat
  cur_dev :: "'v device"

text \<open>The loop condition \<^verbatim>\<open>m < (n >> 1)\<close>.\<close>

definition loop_cond :: "nat \<Rightarrow> 'v loop_vars \<Rightarrow> bool" where
  "loop_cond n s \<longleftrightarrow> cur_m s < drop_bit 1 n"

text \<open>One iteration: \<^verbatim>\<open>gap >>= 1\<close>, the launch chosen by \<^verbatim>\<open>gap < 4\<close>, and the increment
  \<^verbatim>\<open>total_r += m, m <<= 1\<close>. In \<^verbatim>\<open>m * gap/unroll\<close> the product is divided. The functor
  receives \<^verbatim>\<open>total_r\<close> converted to \<^verbatim>\<open>int\<close>.\<close>

definition loop_body ::
  "('a::len word, 'r, 's) dwt_arith \<Rightarrow> ('a word, 'r, 's) Dwt_gpu \<Rightarrow> 'a word loop_vars
     \<Rightarrow> 'a word loop_vars option" where
  "loop_body A obj s =
     (let gap = drop_bit 1 (cur_gap s);
          m = cur_m s;
          total_r = cur_total_r s;
          unroll = 4
      in case (if gap < 4
               then submit A obj (m * gap) (DwtGapLE4 gap (int_of_size_t total_r)) (cur_dev s)
               else submit A obj (m * gap div unroll) (DwtLargeGap unroll gap (int_of_size_t total_r))
                      (cur_dev s)) of
           None \<Rightarrow> None
         | Some d \<Rightarrow>
             Some \<lparr>cur_gap = gap, cur_m = push_bit 1 m, cur_total_r = total_r + m,
                   cur_dev = d\<rparr>)"

partial_function (option) stage_loop ::
  "('a::len word, 'r, 's) dwt_arith \<Rightarrow> ('a word, 'r, 's) Dwt_gpu \<Rightarrow> nat \<Rightarrow> 'a word loop_vars
     \<Rightarrow> 'a word loop_vars option" where
  "stage_loop A obj n s =
     (if loop_cond n s then Option.bind (loop_body A obj s) (stage_loop A obj n)
      else Some s)"

declare stage_loop.simps [code]

text \<open>The launch after the loop: the scalar kernel when \<^verbatim>\<open>scalar_ != nullptr\<close>. Again
  \<^verbatim>\<open>total_r\<close> is converted to \<^verbatim>\<open>int\<close>.\<close>

definition last_round ::
  "('a::len word, 'r, 's) dwt_arith \<Rightarrow> ('a word, 'r, 's) Dwt_gpu \<Rightarrow> 'a word loop_vars
     \<Rightarrow> 'a word device option" where
  "last_round A obj s =
     (if scalar obj \<noteq> None
      then submit A obj (cur_m s) (DwtLastRoundScalar (int_of_size_t (cur_total_r s))) (cur_dev s)
      else submit A obj (cur_m s) (DwtLastRound (int_of_size_t (cur_total_r s))) (cur_dev s))"

definition Dwt_gpu_op ::
  "('a::len word, 'r, 's) dwt_arith \<Rightarrow> ('a word, 'r, 's) Dwt_gpu \<Rightarrow> 'a word device
     \<Rightarrow> 'a word device option" where
  "Dwt_gpu_op A obj d =
     (let n = push_bit (log_n obj) 1
      in Option.bind
           (stage_loop A obj n \<lparr>cur_gap = n, cur_m = 1, cur_total_r = 1, cur_dev = d\<rparr>)
           (last_round A obj))"

subsection \<open>The primitives as the specification describes them\<close>

text \<open>Modelled from the spec: \<^verbatim>\<open>dwt_guard\<close> of the absent \<^verbatim>\<open>util/dwt_arith.h\<close>. "A cheap
  conditional subtraction that brings a value from an extended range back under a
  fixed bound": it reduces \<open>x\<close> into \<open>[0, 2M)\<close> if it was in \<open>[0, 4M)\<close>.\<close>

definition spec_guard :: "'a::len word \<Rightarrow> 'a word \<Rightarrow> 'a word" where
  "spec_guard x two_times_modulus =
     (if x \<ge> two_times_modulus then x - two_times_modulus else x)"

text \<open>Modelled from the spec: \<^verbatim>\<open>dwt_mul_root\<close> of the absent \<^verbatim>\<open>util/dwt_arith.h\<close>. "Modular
  multiplication by a root", with a result in \<open>[0, M)\<close>; the root table is "a flat
  ordered sequence of residues".\<close>

definition spec_mul_root :: "'a::len word \<Rightarrow> 'a word \<Rightarrow> 'a word \<Rightarrow> 'a word" where
  "spec_mul_root y r M = of_nat ((unat y * unat r) mod unat M)"

text \<open>Modelled from the spec: \<^verbatim>\<open>dwt_add\<close> of the absent \<^verbatim>\<open>util/dwt_arith.h\<close>. The sum,
  "no reduction".\<close>

definition spec_add :: "'a::len word \<Rightarrow> 'a word \<Rightarrow> 'a word" where
  "spec_add u v = u + v"

text \<open>Modelled from the spec: \<^verbatim>\<open>dwt_sub\<close> of the absent \<^verbatim>\<open>util/dwt_arith.h\<close>. The
  difference, "kept non-negative via conditional add of 2M".\<close>

definition spec_sub :: "'a::len word \<Rightarrow> 'a word \<Rightarrow> 'a word \<Rightarrow> 'a word" where
  "spec_sub u v two_times_modulus =
     (if u < v then u + two_times_modulus - v else u - v)"

text \<open>Modelled from the spec: \<^verbatim>\<open>dwt_mul_scalar\<close> of the absent \<^verbatim>\<open>util/dwt_arith.h\<close>.
  "Modular multiplication by a precomputed scalar", with a result in \<open>[0, M)\<close>; the
  scalar is "a single residue".\<close>

definition spec_mul_scalar :: "'a::len word \<Rightarrow> 'a word \<Rightarrow> 'a word \<Rightarrow> 'a word" where
  "spec_mul_scalar u s M = of_nat ((unat u * unat s) mod unat M)"

text \<open>Modelled from the spec: \<^verbatim>\<open>dwt_mul_root_scalar\<close> of the absent \<^verbatim>\<open>util/dwt_arith.h\<close>.
  The "combined root-scalar multiplication", with a result in \<open>[0, M)\<close>.\<close>

definition spec_mul_root_scalar :: "'a::len word \<Rightarrow> 'a word \<Rightarrow> 'a word \<Rightarrow> 'a word" where
  "spec_mul_root_scalar r s M = of_nat ((unat r * unat s) mod unat M)"

definition spec_arith :: "('a::len word, 'a word, 'a word) dwt_arith" where
  "spec_arith =
     \<lparr>dwt_guard = spec_guard, dwt_mul_root = spec_mul_root, dwt_add = spec_add,
      dwt_sub = spec_sub, dwt_mul_scalar = spec_mul_scalar,
      dwt_mul_root_scalar = spec_mul_root_scalar\<rparr>"

subsection \<open>Notions used to state the properties\<close>

text \<open>The loop variables as \<^verbatim>\<open>operator()\<close> initialises them: \<^verbatim>\<open>gap = n\<close>, \<^verbatim>\<open>m = 1\<close>,
  \<^verbatim>\<open>total_r = 1\<close>.\<close>

definition loop_init :: "nat \<Rightarrow> 'v device \<Rightarrow> 'v loop_vars" where
  "loop_init n d = \<lparr>cur_gap = n, cur_m = 1, cur_total_r = 1, cur_dev = d\<rparr>"

text \<open>The loop variables at the start of iteration \<open>k\<close>: the loop body run \<open>k\<close> times.\<close>

fun iterate_body ::
  "('a::len word, 'r, 's) dwt_arith \<Rightarrow> ('a word, 'r, 's) Dwt_gpu \<Rightarrow> nat \<Rightarrow> 'a word loop_vars
     \<Rightarrow> 'a word loop_vars option" where
  "iterate_body A obj 0 s = Some s"
| "iterate_body A obj (Suc k) s = Option.bind (iterate_body A obj k s) (loop_body A obj)"

text \<open>The launch of one loop iteration, from the halved gap, \<open>m\<close> and \<open>total_r\<close>, as
  \<open>loop_body\<close> submits it.\<close>

definition interior_launch :: "nat \<Rightarrow> nat \<Rightarrow> nat \<Rightarrow> nat \<times> kernel" where
  "interior_launch gap m total_r =
     (if gap < 4 then (m * gap, DwtGapLE4 gap (int_of_size_t total_r))
      else (m * gap div 4, DwtLargeGap 4 gap (int_of_size_t total_r)))"



subsection \<open>Contracts of the primitives\<close>

text \<open>The range contracts of the primitives, as the specification lists them for a
  modulus \<open>M\<close>: \<open>guard\<close> returns a value below \<open>2M\<close> on an argument below \<open>4M\<close>,
  \<open>mulRoot\<close> and \<open>mulScalar\<close> return values below \<open>M\<close>, and \<open>add\<close> and \<open>sub\<close> stay
  below \<open>4M\<close> on the arguments the kernels pass (the first below \<open>2M\<close>, the second below
  \<open>M\<close>). Values are unsigned, so non-negative.\<close>

definition arith_ranges :: "('a::len word, 'r, 's) dwt_arith \<Rightarrow> 'a word \<Rightarrow> bool" where
  "arith_ranges A M \<longleftrightarrow>
     (\<forall>x. unat x < 4 * unat M \<longrightarrow> unat (dwt_guard A x (push_bit 1 M)) < 2 * unat M) \<and>
     (\<forall>y r. unat y < 4 * unat M \<longrightarrow> unat (dwt_mul_root A y r M) < unat M) \<and>
     (\<forall>u s. unat u < 2 * unat M \<longrightarrow> unat (dwt_mul_scalar A u s M) < unat M) \<and>
     (\<forall>u v. unat u < 2 * unat M \<longrightarrow> unat v < unat M \<longrightarrow> unat (dwt_add A u v) < 4 * unat M) \<and>
     (\<forall>u v. unat u < 2 * unat M \<longrightarrow> unat v < unat M \<longrightarrow>
        unat (dwt_sub A u v (push_bit 1 M)) < 4 * unat M)"

text \<open>The primitives compute what their names say, modulo \<open>M\<close>; \<open>rv\<close> and \<open>sv\<close> read a
  root and a scalar as integers.\<close>

definition arith_exact ::
  "('a::len word, 'r, 's) dwt_arith \<Rightarrow> 'a word \<Rightarrow> ('r \<Rightarrow> int) \<Rightarrow> ('s \<Rightarrow> int) \<Rightarrow> bool" where
  "arith_exact A M rv sv \<longleftrightarrow>
     (\<forall>x. unat x < 4 * unat M \<longrightarrow>
        uint (dwt_guard A x (push_bit 1 M)) mod uint M = uint x mod uint M) \<and>
     (\<forall>y r. unat y < 4 * unat M \<longrightarrow>
        uint (dwt_mul_root A y r M) mod uint M = (uint y * rv r) mod uint M) \<and>
     (\<forall>u s. unat u < 2 * unat M \<longrightarrow>
        uint (dwt_mul_scalar A u s M) mod uint M = (uint u * sv s) mod uint M) \<and>
     (\<forall>r s. rv (dwt_mul_root_scalar A r s M) mod uint M = (rv r * sv s) mod uint M) \<and>
     (\<forall>u v. unat u < 2 * unat M \<longrightarrow> unat v < unat M \<longrightarrow>
        uint (dwt_add A u v) mod uint M = (uint u + uint v) mod uint M) \<and>
     (\<forall>u v. unat u < 2 * unat M \<longrightarrow> unat v < unat M \<longrightarrow>
        uint (dwt_sub A u v (push_bit 1 M)) mod uint M = (uint u - uint v) mod uint M)"

text \<open>The full reduction of the final round, in the words of the specification:
  "\<open>v -= 2M\<close> if \<open>v >= 2M\<close>; \<open>v -= M\<close> if \<open>v >= M\<close>".\<close>

definition full_reduce :: "'a::len word \<Rightarrow> 'a word \<Rightarrow> 'a word" where
  "full_reduce M x =
     (let two_M = push_bit 1 M;
          x1 = x - (if x \<ge> two_M then two_M else 0)
      in x1 - (if x1 \<ge> M then M else 0))"

text \<open>The two values a butterfly stores, from the values \<open>a\<close> and \<open>b\<close> it reads in the
  slots \<open>x\<close> and \<open>y\<close>.\<close>

definition bf_sum :: "('a::len word, 'r, 's) dwt_arith \<Rightarrow> 'a word \<Rightarrow> 'r \<Rightarrow> 'a word \<Rightarrow> 'a word \<Rightarrow> 'a word" where
  "bf_sum A M r a b = dwt_add A (dwt_guard A a (push_bit 1 M)) (dwt_mul_root A b r M)"

definition bf_diff :: "('a::len word, 'r, 's) dwt_arith \<Rightarrow> 'a word \<Rightarrow> 'r \<Rightarrow> 'a word \<Rightarrow> 'a word \<Rightarrow> 'a word" where
  "bf_diff A M r a b =
     dwt_sub A (dwt_guard A a (push_bit 1 M)) (dwt_mul_root A b r M) (push_bit 1 M)"


subsection \<open>Write footprints\<close>

text \<open>The slots that unit \<open>ind\<close> of \<^verbatim>\<open>DwtGapLE4\<close> stores into: \<^verbatim>\<open>*x\<close> and \<^verbatim>\<open>*y\<close>, with
  the addresses as \<^verbatim>\<open>operator()\<close> computes them.\<close>

definition DwtGapLE4_writes :: "nat \<Rightarrow> nat \<Rightarrow> nat set" where
  "DwtGapLE4_writes gap ind =
     (let i = ind div gap;
          j = ind mod gap;
          offset = i * push_bit 1 gap + j;
          x = offset;
          y = x + gap
      in {x, y})"

text \<open>The slots that unit \<open>ind\<close> of \<^verbatim>\<open>DwtLargeGap\<close> stores into: \<^verbatim>\<open>*x++\<close> and \<^verbatim>\<open>*y++\<close>
  in each of the \<^verbatim>\<open>Unroll\<close> iterations.\<close>

definition DwtLargeGap_writes :: "nat \<Rightarrow> nat \<Rightarrow> nat \<Rightarrow> nat set" where
  "DwtLargeGap_writes Unroll gap ind =
     (let i = ind div (gap div Unroll);
          j = ind mod (gap div Unroll);
          offset = i * push_bit 1 gap + j * Unroll;
          x = offset;
          y = x + gap
      in (\<Union>k\<in>{..<Unroll}. {x + k, y + k}))"

text \<open>The unit of a small-gap launch that owns slot \<open>p\<close>.\<close>

definition unit_of_slot :: "nat \<Rightarrow> nat \<Rightarrow> nat" where
  "unit_of_slot gap p = p div (2 * gap) * gap + p mod gap"

text \<open>The unit of a large-gap launch with unroll factor 4 that owns slot \<open>p\<close>.\<close>

definition unit_of_slot4 :: "nat \<Rightarrow> nat \<Rightarrow> nat" where
  "unit_of_slot4 gap p = p div (2 * gap) * (gap div 4) + p mod gap div 4"

subsection \<open>Notions for the range invariant\<close>

text \<open>The two values the scalar final round reduces: the sum and the difference of
  the scaled \<open>u\<close> and of \<open>v\<close> multiplied by the scaled root.\<close>

definition sc_sum ::
  "('a::len word, 'r, 's) dwt_arith \<Rightarrow> 'a word \<Rightarrow> 'r \<Rightarrow> 's \<Rightarrow> 'a word \<Rightarrow> 'a word \<Rightarrow> 'a word" where
  "sc_sum A M r sc a b =
     dwt_add A (dwt_mul_scalar A (dwt_guard A a (push_bit 1 M)) sc M)
       (dwt_mul_root A b (dwt_mul_root_scalar A r sc M) M)"

definition sc_diff ::
  "('a::len word, 'r, 's) dwt_arith \<Rightarrow> 'a word \<Rightarrow> 'r \<Rightarrow> 's \<Rightarrow> 'a word \<Rightarrow> 'a word \<Rightarrow> 'a word" where
  "sc_diff A M r sc a b =
     dwt_sub A (dwt_mul_scalar A (dwt_guard A a (push_bit 1 M)) sc M)
       (dwt_mul_root A b (dwt_mul_root_scalar A r sc M) M) (push_bit 1 M)"

text \<open>Every slot of the buffer is below the bound \<open>B\<close>.\<close>

definition below :: "nat \<Rightarrow> 'a::len word list \<Rightarrow> bool" where
  "below B vs \<longleftrightarrow> (\<forall>x\<in>set vs. unat x < B)"

text \<open>The state of the buffer of \<open>n\<close> slots after the units below \<open>t\<close> of the final
  round: all slots below \<open>4M\<close>, those of the finished units below \<open>M\<close>.\<close>

definition final_inv :: "'a::len word \<Rightarrow> nat \<Rightarrow> nat \<Rightarrow> 'a word list \<Rightarrow> bool" where
  "final_inv M n t v \<longleftrightarrow>
     length v = n \<and> below (4 * unat M) v \<and> (\<forall>p < 2 * t. p < n \<longrightarrow> unat (v ! p) < unat M)"

subsection \<open>The scalar-merge equivalence of the specification\<close>

text \<open>The independent full-buffer scalar multiplication of the specification: every
  slot multiplied by \<open>s\<close> modulo the modulus.\<close>

definition scale_all ::
  "('a::len word, 'r, 's) dwt_arith \<Rightarrow> 's \<Rightarrow> 'a word \<Rightarrow> 'a word list \<Rightarrow> 'a word list" where
  "scale_all A s M vs = map (\<lambda>x. dwt_mul_scalar A x s M) vs"

text \<open>The two sides of the scalar-merge equivalence of the specification: the
  non-scalar final round over \<open>m\<close> units followed by the scalar multiplication, and the
  scalar-merged final round over \<open>m\<close> units.\<close>

definition final_then_scale ::
  "('a::len word, 'r, 's) dwt_arith \<Rightarrow> nat \<Rightarrow> int \<Rightarrow> 'a word \<Rightarrow> 'r list \<Rightarrow> 's
     \<Rightarrow> 'a word list \<Rightarrow> 'a word list option" where
  "final_then_scale A m rounds M rts s vs =
     map_option (scale_all A s M) (parallel_for m (DwtLastRound_op A rounds M rts) vs)"

definition final_scalar_merged ::
  "('a::len word, 'r, 's) dwt_arith \<Rightarrow> nat \<Rightarrow> int \<Rightarrow> 'a word \<Rightarrow> 'r list \<Rightarrow> 's
     \<Rightarrow> 'a word list \<Rightarrow> 'a word list option" where
  "final_scalar_merged A m rounds M rts s vs =
     parallel_for m (DwtLastRoundScalar_op A rounds M rts s) vs"

subsection \<open>The round trip of the specification\<close>

text \<open>Modelled from the spec: the round trip \<^verbatim>\<open>inverseTransform(forwardTransform(v))\<close> of its
  round-trip law, as two calls of the engine on the buffer \<open>v\<close>: the first with the object
  \<open>fw\<close> (the forward root table, no scalar), the second with the object \<open>bw\<close> (the inverse
  root table and the scalar \<open>1/n\<close>) on the buffer the first call leaves.\<close>

definition round_trip ::
  "('a::len word, 'r, 's) dwt_arith \<Rightarrow> ('a word, 'r, 's) Dwt_gpu \<Rightarrow> ('a word, 'r, 's) Dwt_gpu
     \<Rightarrow> 'a word list \<Rightarrow> 'a word list option" where
  "round_trip A fw bw v =
     (case Dwt_gpu_op A fw \<lparr>vals = v, submitted = []\<rparr> of
        None \<Rightarrow> None
      | Some d \<Rightarrow>
          (case Dwt_gpu_op A bw \<lparr>vals = vals d, submitted = []\<rparr> of
             None \<Rightarrow> None
           | Some d' \<Rightarrow> Some (vals d')))"


section \<open>Properties\<close>

subsection \<open>The root index\<close>

lemma int_of_size_t_small:
  assumes "n < 2 ^ 31"
  shows "int_of_size_t n = int n"
proof -
  have "n < 2 ^ 32" using assms by simp
  then have t: "take_bit 32 n = n" by (simp add: take_bit_nat_eq_self)
  have "sint (word_of_nat n :: 32 word) = signed_take_bit 31 (int n)"
    by (simp add: sint_uint unsigned_of_nat t)
  also have "\<dots> = int n"
    using assms by (intro signed_take_bit_int_eq_self) simp_all
  finally show ?thesis by (simp add: int_of_size_t_def)
qed

lemma root_index_nat:
  assumes "n + i < 2 ^ 64"
  shows "root_index (int n) i = n + i"
proof -
  have "(word_of_int (int n) + word_of_nat i :: 64 word) = word_of_nat (n + i)" by simp
  then have "root_index (int n) i = unat (word_of_nat (n + i) :: 64 word)"
    by (simp only: root_index_def)
  also have "\<dots> = n + i"
    using assms by (simp only: unat_of_nat take_bit_nat_eq_self len_of_numeral_defs) simp
  finally show ?thesis .
qed

lemma root_index_total_r:
  assumes "k \<le> 30" and "i < 2 ^ k"
  shows "root_index (int_of_size_t (2 ^ k)) i = 2 ^ k + i"
proof -
  have "(2::nat) ^ k \<le> 2 ^ 30" using assms(1) by (intro power_increasing) simp_all
  then have a: "(2::nat) ^ k < 2 ^ 31" and b: "2 ^ k + i < (2::nat) ^ 64"
    using assms(2) by simp_all
  show ?thesis unfolding int_of_size_t_small[OF a] by (rule root_index_nat[OF b])
qed

lemma root_index_1_0: "root_index 1 0 = 1" "int_of_size_t 1 = 1" "int_of_size_t (Suc 0) = 1"
  by (simp_all add: root_index_def int_of_size_t_def)

subsection \<open>The stage loop\<close>

lemma stage_loop_continue:
  "loop_cond n s \<Longrightarrow> stage_loop A obj n s = Option.bind (loop_body A obj s) (stage_loop A obj n)"
  by (subst stage_loop.simps) simp

lemma stage_loop_exit: "\<not> loop_cond n s \<Longrightarrow> stage_loop A obj n s = Some s"
  by (subst stage_loop.simps) simp

lemma submit_Some:
  assumes "submit A obj N K d = Some d'"
  shows "submitted d' = submitted d @ [(N, K)]"
    and "parallel_for N (kernel_op A obj K) (vals d) = Some (vals d')"
  using assms by (auto simp: submit_def split: option.splits)

lemma loop_body_Some:
  assumes "loop_body A obj s = Some s'"
  shows "cur_gap s' = cur_gap s div 2"
    and "cur_m s' = 2 * cur_m s"
    and "cur_total_r s' = cur_total_r s + cur_m s"
    and "submitted (cur_dev s') =
           submitted (cur_dev s) @ [interior_launch (cur_gap s div 2) (cur_m s) (cur_total_r s)]"
  using assms
  by (auto simp: loop_body_def Let_def interior_launch_def drop_bit_eq_div push_bit_eq_mult
      split: option.splits if_splits dest: submit_Some(1))

lemma iterate_body_vars:
  assumes "iterate_body A obj k (loop_init (2 ^ L) d) = Some s" and "k \<le> L"
  shows "cur_gap s = 2 ^ (L - k) \<and> cur_m s = 2 ^ k \<and> cur_total_r s = 2 ^ k"
  using assms
proof (induction k arbitrary: s)
  case 0
  then show ?case by (auto simp: loop_init_def)
next
  case (Suc k)
  from Suc.prems(1) obtain t where t: "iterate_body A obj k (loop_init (2 ^ L) d) = Some t"
    and b: "loop_body A obj t = Some s"
    by (auto simp: bind_eq_Some_conv)
  from Suc.IH[OF t] Suc.prems(2)
  have v: "cur_gap t = 2 ^ (L - k)" "cur_m t = 2 ^ k" "cur_total_r t = 2 ^ k" by auto
  have "L - k = Suc (L - Suc k)" using Suc.prems(2) by simp
  then have "(2::nat) ^ (L - k) div 2 = 2 ^ (L - Suc k)" by simp
  with loop_body_Some(1-3)[OF b] v show ?case by simp
qed

lemma loop_cond_pow:
  assumes "cur_m s = 2 ^ k" and "1 \<le> L"
  shows "loop_cond (2 ^ L) s \<longleftrightarrow> k < L - 1"
proof -
  have "(2::nat) ^ L div 2 = 2 ^ (L - 1)" using assms(2) by (cases L) simp_all
  then show ?thesis using assms(1) by (simp add: loop_cond_def drop_bit_eq_div)
qed

lemma stage_loop_iterate:
  assumes "1 \<le> L" and "k + j = L - 1"
  shows "Option.bind (iterate_body A obj k (loop_init (2 ^ L) d)) (stage_loop A obj (2 ^ L)) =
         iterate_body A obj (L - 1) (loop_init (2 ^ L) d)"
  using assms(2)
proof (induction j arbitrary: k)
  case 0
  then have k: "k = L - 1" by simp
  show ?case
  proof (cases "iterate_body A obj k (loop_init (2 ^ L) d)")
    case None
    then show ?thesis using k by simp
  next
    case (Some s)
    with iterate_body_vars[OF Some] k have "cur_m s = 2 ^ k" by simp
    then have "\<not> loop_cond (2 ^ L) s" using loop_cond_pow[OF _ assms(1)] k by blast
    then show ?thesis using Some k by (simp add: stage_loop_exit)
  qed
next
  case (Suc j)
  then have kj: "Suc k + j = L - 1" and kl: "k < L - 1" by simp_all
  show ?case
  proof (cases "iterate_body A obj k (loop_init (2 ^ L) d)")
    case None
    have "iterate_body A obj (Suc k) (loop_init (2 ^ L) d) = None" using None by simp
    with Suc.IH[OF kj] None show ?thesis by simp
  next
    case (Some s)
    with iterate_body_vars[OF Some] kl have "cur_m s = 2 ^ k" by simp
    then have "loop_cond (2 ^ L) s" using loop_cond_pow[OF _ assms(1)] kl by blast
    then have "Option.bind (iterate_body A obj k (loop_init (2 ^ L) d)) (stage_loop A obj (2 ^ L))
      = Option.bind (iterate_body A obj (Suc k) (loop_init (2 ^ L) d)) (stage_loop A obj (2 ^ L))"
      using Some by (simp add: stage_loop_continue)
    with Suc.IH[OF kj] show ?thesis by simp
  qed
qed

lemma stage_loop_eq:
  assumes "1 \<le> L"
  shows "stage_loop A obj (2 ^ L) (loop_init (2 ^ L) d) =
         iterate_body A obj (L - 1) (loop_init (2 ^ L) d)"
  using stage_loop_iterate[OF assms, of 0 "L - 1" A obj d] by simp

lemma sum_pow2: "1 + (\<Sum>j<k. (2::nat) ^ j) = 2 ^ k"
  by (induction k) simp_all

lemma pow2_div: "k \<le> L \<Longrightarrow> (2::nat) ^ L div 2 ^ k = 2 ^ (L - k)"
  by (simp add: power_diff)

lemma pow2_half: "k < L \<Longrightarrow> (2::nat) ^ (L - k) div 2 = 2 ^ (L - Suc k)"
proof -
  assume "k < L"
  then have "L - k = Suc (L - Suc k)" by simp
  then show ?thesis by simp
qed

lemma pow2_div_Suc: "k < L \<Longrightarrow> (2::nat) ^ L div 2 ^ (k + 1) = 2 ^ (L - k) div 2"
  using pow2_div[of "k + 1" L] pow2_half[of k L] by simp

lemma Dwt_gpu_op_unfold:
  assumes "1 \<le> log_n obj"
  shows "Dwt_gpu_op A obj d =
         Option.bind (iterate_body A obj (log_n obj - 1) (loop_init (2 ^ log_n obj) d))
           (last_round A obj)"
  using stage_loop_eq[OF assms, of A obj d]
  by (simp add: Dwt_gpu_op_def loop_init_def push_bit_eq_mult)



text \<open>
  Claim C5, as the code has it. Let \<open>n = 2 ^ L\<close> with \<open>L \<ge> 1\<close>, and let the loop body have
  run \<open>k \<le> L - 1\<close> times from the initial variables. Then at the start of iteration \<open>k\<close>
  we have \<open>m = 2 ^ k\<close>, \<open>gap = n / 2 ^ k\<close> (it is \<open>n / 2 ^ (k + 1)\<close> only after the
  halving that opens the body), and \<open>total_r\<close> is \<open>1\<close> plus the sum of the earlier \<open>m\<close>.
  The loop condition holds exactly for \<open>k < L - 1\<close> and fails exactly when \<open>m = n / 2\<close>,
  so the loop returns the variables of iteration \<open>L - 1\<close>.
\<close>

theorem loop_invariant:
  assumes "1 \<le> L" and "k \<le> L - 1"
    and "iterate_body A obj k (loop_init (2 ^ L) d) = Some s"
  shows "cur_m s = 2 ^ k \<and> cur_gap s = 2 ^ L div 2 ^ k
       \<and> drop_bit 1 (cur_gap s) = 2 ^ L div 2 ^ (k + 1)
       \<and> cur_total_r s = 1 + (\<Sum>j<k. 2 ^ j)
       \<and> (loop_cond (2 ^ L) s \<longleftrightarrow> k < L - 1)
       \<and> (\<not> loop_cond (2 ^ L) s \<longleftrightarrow> cur_m s = 2 ^ L div 2)
       \<and> stage_loop A obj (2 ^ L) (loop_init (2 ^ L) d) =
           iterate_body A obj (L - 1) (loop_init (2 ^ L) d)"
proof -
  have kL: "k \<le> L" "k < L" using assms(1,2) by simp_all
  from iterate_body_vars[OF assms(3) kL(1)]
  have v: "cur_gap s = 2 ^ (L - k)" "cur_m s = 2 ^ k" "cur_total_r s = 2 ^ k" by auto
  have c: "loop_cond (2 ^ L) s \<longleftrightarrow> k < L - 1" by (rule loop_cond_pow[OF v(2) assms(1)])
  have h: "(2::nat) ^ L div 2 = 2 ^ (L - 1)" using assms(1) by (cases L) simp_all
  have e: "(2::nat) ^ k = 2 ^ (L - 1) \<longleftrightarrow> k = L - 1" by simp
  have d2: "k < L \<Longrightarrow> (2::nat) ^ (L - k) div 2 = 2 ^ L div 2 ^ (k + 1)"
    using pow2_div_Suc[of k L] by simp
  have t: "cur_total_r s = 1 + (\<Sum>j<k. 2 ^ j)"
    unfolding v(3) by (rule sum_pow2[symmetric])
  have g1: "cur_gap s = 2 ^ L div 2 ^ k" using v(1) kL(1) by (simp add: pow2_div)
  have g2: "drop_bit 1 (cur_gap s) = 2 ^ L div 2 ^ (k + 1)"
    using v(1) d2[OF kL(2)] by (simp add: drop_bit_eq_div)
  have x: "\<not> loop_cond (2 ^ L) s \<longleftrightarrow> cur_m s = 2 ^ L div 2"
    using c h e v(2) assms(2) by auto
  from v(2) g1 g2 t c x stage_loop_eq[OF assms(1), of A obj d]
  show ?thesis by blast
qed

theorem loop_invariant_witness:
  "(1::nat) \<le> 2 \<and> (1::nat) \<le> 2 - 1
   \<and> iterate_body spec_arith
         \<lparr>log_n = 2, modulus = 17::64 word, roots = [1, 4, 2, 8::64 word],
          scalar = None::64 word option\<rparr> 1
         (loop_init (2 ^ 2) \<lparr>vals = [1, 2, 3, 4], submitted = []\<rparr>)
       = Some \<lparr>cur_gap = 2, cur_m = 2, cur_total_r = 2,
               cur_dev = \<lparr>vals = [13, 18, 23, 20], submitted = [(2, DwtGapLE4 2 1)]\<rparr>\<rparr>
   \<and> (2::nat) = 2 ^ 1 \<and> (2::nat) = 2 ^ 2 div 2 ^ 1
   \<and> drop_bit 1 (2::nat) = 2 ^ 2 div 2 ^ (1 + 1)
   \<and> (2::nat) = 1 + (\<Sum>j<1. 2 ^ j)"
proof -
  have h: "iterate_body spec_arith
         \<lparr>log_n = 2, modulus = 17::64 word, roots = [1, 4, 2, 8::64 word],
          scalar = None::64 word option\<rparr> 1
         (loop_init (2 ^ 2) \<lparr>vals = [1, 2, 3, 4], submitted = []\<rparr>)
       = Some \<lparr>cur_gap = 2, cur_m = 2, cur_total_r = 2,
               cur_dev = \<lparr>vals = [13, 18, 23, 20], submitted = [(2, DwtGapLE4 2 1)]\<rparr>\<rparr>"
    by code_simp
  have a: "(1::nat) \<le> 2" and b: "(1::nat) \<le> 2 - 1" by simp_all
  show ?thesis using h loop_invariant[OF a b h] by simp
qed

text \<open>At the start of iteration \<open>0\<close> of a four-point transform the loop is entered with
  \<open>gap = 4\<close>, not \<open>4 / 2 ^ (0 + 1)\<close>.\<close>

theorem loop_invariant_counterexample:
  "loop_cond (2 ^ 2) (loop_init (2 ^ 2) \<lparr>vals = [1, 2, 3, 4::64 word], submitted = []\<rparr>)
   \<and> iterate_body spec_arith
         \<lparr>log_n = 2, modulus = 17::64 word, roots = [1, 4, 2, 8::64 word],
          scalar = None::64 word option\<rparr> 0
         (loop_init (2 ^ 2) \<lparr>vals = [1, 2, 3, 4], submitted = []\<rparr>)
       = Some (loop_init (2 ^ 2) \<lparr>vals = [1, 2, 3, 4], submitted = []\<rparr>)
   \<and> cur_gap (loop_init (2 ^ 2) \<lparr>vals = [1, 2, 3, 4::64 word], submitted = []\<rparr>)
       \<noteq> 2 ^ 2 div 2 ^ (0 + 1)"
  by (simp add: loop_init_def loop_cond_def drop_bit_eq_div)



subsection \<open>Word arithmetic of the final reduction\<close>

lemma unat_two_times:
  fixes M :: "'a::len word"
  assumes "2 * unat M < 2 ^ LENGTH('a)"
  shows "unat (push_bit 1 M) = 2 * unat M"
proof -
  have "push_bit 1 M = M + M" by (simp add: push_bit_eq_mult)
  then have "unat (push_bit 1 M) = (unat M + unat M) mod 2 ^ LENGTH('a)"
    by (simp only: unat_word_ariths(1))
  then show ?thesis using assms by simp
qed

lemma full_reduce_unat:
  fixes M x :: "'a::len word"
  assumes "2 * unat M < 2 ^ LENGTH('a)" and "unat x < 4 * unat M"
  shows "unat (full_reduce M x) = unat x mod unat M"
proof -
  let ?t = "push_bit 1 M :: 'a word"
  have t: "unat ?t = 2 * unat M" by (rule unat_two_times[OF assms(1)])
  define x1 where "x1 = x - (if x \<ge> ?t then ?t else 0)"
  have x1: "unat x1 < 2 * unat M \<and> (unat x1 = unat x \<or> unat x = unat x1 + 2 * unat M)"
    using assms(2) t by (auto simp: x1_def word_le_nat_alt unat_sub)
  define y where "y = x1 - (if x1 \<ge> M then M else 0)"
  have y: "unat y < unat M \<and> (unat y = unat x1 \<or> unat x1 = unat y + unat M)"
    using x1 by (auto simp: y_def word_le_nat_alt unat_sub)
  have "full_reduce M x = y" by (simp add: full_reduce_def x1_def y_def Let_def)
  moreover have "unat x mod unat M = unat y"
  proof -
    from x1 y consider "unat x = unat y" | "unat x = unat y + unat M"
      | "unat x = unat y + 2 * unat M" | "unat x = unat y + 3 * unat M"
      by (elim conjE disjE) simp_all
    then show ?thesis using y by cases simp_all
  qed
  ultimately show ?thesis by simp
qed

lemma full_reduce_uint:
  fixes M x :: "'a::len word"
  assumes "2 * unat M < 2 ^ LENGTH('a)" and "unat x < 4 * unat M"
  shows "uint (full_reduce M x) = uint x mod uint M"
proof -
  have "uint (full_reduce M x) = int (unat (full_reduce M x))" by (rule uint_nat)
  also have "\<dots> = int (unat x mod unat M)" by (simp only: full_reduce_unat[OF assms])
  also have "\<dots> = int (unat x) mod int (unat M)" by (rule zmod_int)
  also have "\<dots> = uint x mod uint M" by (simp only: uint_nat)
  finally show ?thesis .
qed

subsection \<open>The primitives of the specification meet the contracts\<close>

lemma unat_of_nat_mod:
  fixes M :: "'a::len word"
  assumes "0 < unat M"
  shows "unat (of_nat (k mod unat M) :: 'a word) = k mod unat M"
proof -
  have "k mod unat M < unat M" using assms by simp
  then have "k mod unat M \<le> unat M" by simp
  then show ?thesis by (rule le_unat_uoi)
qed

lemma uint_of_nat_mod:
  fixes M :: "'a::len word"
  assumes "0 < unat M"
  shows "uint (of_nat ((a * b) mod unat M) :: 'a word) mod uint M = (int a * int b) mod uint M"
proof -
  have "uint (of_nat ((a * b) mod unat M) :: 'a word) = int ((a * b) mod unat M)"
    by (simp only: uint_nat unat_of_nat_mod[OF assms])
  also have "\<dots> = (int a * int b) mod int (unat M)"
    by (simp only: zmod_int of_nat_mult)
  also have "\<dots> = (int a * int b) mod uint M"
    by (simp only: uint_nat)
  finally show ?thesis by simp
qed

lemma spec_guard_unat:
  fixes M x :: "'a::len word"
  assumes "2 * unat M < 2 ^ LENGTH('a)" and "unat x < 4 * unat M"
  shows "unat (spec_guard x (push_bit 1 M)) < 2 * unat M"
    and "unat (spec_guard x (push_bit 1 M)) = unat x
         \<or> unat x = unat (spec_guard x (push_bit 1 M)) + 2 * unat M"
  using assms(2) unat_two_times[OF assms(1)]
  by (auto simp: spec_guard_def word_le_nat_alt unat_sub)

lemma spec_add_unat:
  fixes M u v :: "'a::len word"
  assumes "4 * unat M \<le> 2 ^ LENGTH('a)" and "unat u < 2 * unat M" and "unat v < unat M"
  shows "unat (spec_add u v) = unat u + unat v"
proof -
  have "unat (u + v) = (unat u + unat v) mod 2 ^ LENGTH('a)" by (simp only: unat_word_ariths(1))
  moreover have "unat u + unat v < 2 ^ LENGTH('a)" using assms by linarith
  ultimately show ?thesis by (simp add: spec_add_def)
qed

lemma spec_sub_unat:
  fixes M u v :: "'a::len word"
  assumes "4 * unat M \<le> 2 ^ LENGTH('a)" and "unat u < 2 * unat M" and "unat v < unat M"
  shows "unat (spec_sub u v (push_bit 1 M)) =
           (if unat u < unat v then unat u + 2 * unat M - unat v else unat u - unat v)"
proof -
  have le: "2 * unat M < 2 ^ LENGTH('a)" using assms by linarith
  have t: "unat (push_bit 1 M :: 'a word) = 2 * unat M" by (rule unat_two_times[OF le])
  show ?thesis
  proof (cases "u < v")
    case True
    have "unat (u + push_bit 1 M) = (unat u + unat (push_bit 1 M :: 'a word)) mod 2 ^ LENGTH('a)"
      by (simp only: unat_word_ariths(1))
    moreover have "unat u + 2 * unat M < 2 ^ LENGTH('a)" using assms by linarith
    ultimately have s: "unat (u + push_bit 1 M) = unat u + 2 * unat M" using t by simp
    then have "v \<le> u + push_bit 1 M" using assms(3) by (simp add: word_le_nat_alt)
    then have "unat (u + push_bit 1 M - v) = unat u + 2 * unat M - unat v"
      using s by (simp add: unat_sub)
    then show ?thesis using True by (simp add: spec_sub_def word_less_nat_alt)
  next
    case False
    then have "v \<le> u" by simp
    then have "unat (u - v) = unat u - unat v" by (simp add: unat_sub)
    then show ?thesis using False by (simp add: spec_sub_def word_less_nat_alt)
  qed
qed

lemma spec_arith_ranges:
  fixes M :: "'a::len word"
  assumes "0 < unat M" and "4 * unat M \<le> 2 ^ LENGTH('a)"
  shows "arith_ranges (spec_arith :: ('a word, 'a word, 'a word) dwt_arith) M"
proof -
  have le: "2 * unat M < 2 ^ LENGTH('a)" using assms by linarith
  have g: "unat (spec_guard x (push_bit 1 M)) < 2 * unat M" if "unat x < 4 * unat M" for x
    by (rule spec_guard_unat(1)[OF le that])
  have m: "unat (spec_mul_root y r M) < unat M" for y r :: "'a word"
    unfolding spec_mul_root_def unat_of_nat_mod[OF assms(1)] using assms(1) by simp
  have s: "unat (spec_mul_scalar y r M) < unat M" for y r :: "'a word"
    unfolding spec_mul_scalar_def unat_of_nat_mod[OF assms(1)] using assms(1) by simp
  have a: "unat (spec_add u v) < 4 * unat M"
    if "unat u < 2 * unat M" "unat v < unat M" for u v :: "'a word"
    using spec_add_unat[OF assms(2) that] that by simp
  have b: "unat (spec_sub u v (push_bit 1 M)) < 4 * unat M"
    if "unat u < 2 * unat M" "unat v < unat M" for u v :: "'a word"
    using spec_sub_unat[OF assms(2) that] that by (simp split: if_splits)
  show ?thesis
    unfolding arith_ranges_def spec_arith_def using g m s a b by simp
qed

lemma spec_arith_exact:
  fixes M :: "'a::len word"
  assumes "0 < unat M" and "4 * unat M \<le> 2 ^ LENGTH('a)"
  shows "arith_exact (spec_arith :: ('a word, 'a word, 'a word) dwt_arith) M uint uint"
proof -
  have le: "2 * unat M < 2 ^ LENGTH('a)" using assms by linarith
  have g: "uint (spec_guard x (push_bit 1 M)) mod uint M = uint x mod uint M"
    if "unat x < 4 * unat M" for x
  proof -
    from spec_guard_unat(2)[OF le that]
    have "int (unat (spec_guard x (push_bit 1 M))) = int (unat x)
         \<or> int (unat x) = int (unat (spec_guard x (push_bit 1 M)) + 2 * unat M)"
      by presburger
    then have "uint (spec_guard x (push_bit 1 M)) = uint x
         \<or> uint x = uint (spec_guard x (push_bit 1 M)) + 2 * uint M"
      by simp
    then show ?thesis by auto
  qed
  have m: "uint (spec_mul_root y r M) mod uint M = (uint y * uint r) mod uint M" for y r :: "'a word"
    unfolding spec_mul_root_def uint_of_nat_mod[OF assms(1)] by simp
  have s: "uint (spec_mul_scalar y r M) mod uint M = (uint y * uint r) mod uint M" for y r :: "'a word"
    unfolding spec_mul_scalar_def uint_of_nat_mod[OF assms(1)] by simp
  have rs: "uint (spec_mul_root_scalar y r M) mod uint M = (uint y * uint r) mod uint M" for y r :: "'a word"
    unfolding spec_mul_root_scalar_def uint_of_nat_mod[OF assms(1)] by simp
  have a: "uint (spec_add u v) mod uint M = (uint u + uint v) mod uint M"
    if "unat u < 2 * unat M" "unat v < unat M" for u v :: "'a word"
  proof -
    have "int (unat (spec_add u v)) = int (unat u + unat v)"
      using spec_add_unat[OF assms(2) that] by (rule arg_cong)
    then have "uint (spec_add u v) = uint u + uint v" by simp
    then show ?thesis by simp
  qed
  have b: "uint (spec_sub u v (push_bit 1 M)) mod uint M = (uint u - uint v) mod uint M"
    if "unat u < 2 * unat M" "unat v < unat M" for u v :: "'a word"
  proof (cases "unat u < unat v")
    case True
    with spec_sub_unat[OF assms(2) that]
    have "unat (spec_sub u v (push_bit 1 M)) + unat v = unat u + 2 * unat M"
      using that by simp
    then have "int (unat (spec_sub u v (push_bit 1 M)) + unat v) = int (unat u + 2 * unat M)"
      by (rule arg_cong)
    then have "uint (spec_sub u v (push_bit 1 M)) = (uint u - uint v) + 2 * uint M"
      by simp
    then show ?thesis by simp
  next
    case False
    with spec_sub_unat[OF assms(2) that]
    have "unat (spec_sub u v (push_bit 1 M)) + unat v = unat u"
      by simp
    then have "int (unat (spec_sub u v (push_bit 1 M)) + unat v) = int (unat u)"
      by (rule arg_cong)
    then have "uint (spec_sub u v (push_bit 1 M)) = uint u - uint v"
      by simp
    then show ?thesis by simp
  qed
  show ?thesis
    unfolding arith_exact_def spec_arith_def using g m s rs a b by simp
qed

subsection \<open>Single units and the final round\<close>

lemma parallel_for_0: "parallel_for 0 K vs = Some vs"
  by (simp add: parallel_for_def)

lemma parallel_for_Suc:
  "parallel_for (Suc N) K vs = Option.bind (parallel_for N K vs) (K N)"
  by (simp add: parallel_for_def)

lemma butterfly_Some:
  assumes "x < length vs" and "y < length vs"
  shows "butterfly A M r x y vs =
         Some (vs[x := bf_sum A M r (vs ! x) (vs ! y), y := bf_diff A M r (vs ! x) (vs ! y)])"
  using assms by (simp add: butterfly_def bf_sum_def bf_diff_def Let_def)

lemma butterfly_None:
  assumes "\<not> (x < length vs \<and> y < length vs)"
  shows "butterfly A M r x y vs = None"
  using assms by (auto simp: butterfly_def)

lemma DwtLastRound_op_Some:
  assumes "root_index rounds i < length rts" and "2 * i + 1 < length vs"
  shows "DwtLastRound_op A rounds M rts i vs =
         Some (vs[2 * i := full_reduce M (bf_sum A M (rts ! (root_index rounds i)) (vs ! (2 * i)) (vs ! (2 * i + 1))),
                  2 * i + 1 := full_reduce M (bf_diff A M (rts ! (root_index rounds i)) (vs ! (2 * i)) (vs ! (2 * i + 1)))])"
  using assms by (simp add: DwtLastRound_op_def full_reduce_def bf_sum_def bf_diff_def Let_def)

lemma bf_sem:
  assumes r: "arith_ranges A M" and e: "arith_exact A M rv sv"
    and a: "unat a < 4 * unat M" and b: "unat b < 4 * unat M"
  shows "unat (bf_sum A M r a b) < 4 * unat M"
    and "unat (bf_diff A M r a b) < 4 * unat M"
    and "uint (bf_sum A M r a b) mod uint M = (uint a + rv r * uint b) mod uint M"
    and "uint (bf_diff A M r a b) mod uint M = (uint a - rv r * uint b) mod uint M"
proof -
  let ?u = "dwt_guard A a (push_bit 1 M)"
  let ?v = "dwt_mul_root A b r M"
  have u: "unat ?u < 2 * unat M" using r a by (simp add: arith_ranges_def)
  have v: "unat ?v < unat M" using r b by (simp add: arith_ranges_def)
  have ue: "uint ?u mod uint M = uint a mod uint M" using e a by (simp add: arith_exact_def)
  have ve: "uint ?v mod uint M = (rv r * uint b) mod uint M"
    using e b by (simp add: arith_exact_def mult.commute)
  show "unat (bf_sum A M r a b) < 4 * unat M"
    unfolding bf_sum_def using r u v by (simp add: arith_ranges_def)
  show "unat (bf_diff A M r a b) < 4 * unat M"
    unfolding bf_diff_def using r u v by (simp add: arith_ranges_def)
  have "uint (bf_sum A M r a b) mod uint M = (uint ?u + uint ?v) mod uint M"
    unfolding bf_sum_def using e u v by (simp add: arith_exact_def)
  also have "\<dots> = (uint a + rv r * uint b) mod uint M"
    using ue ve by (rule mod_add_cong)
  finally show "uint (bf_sum A M r a b) mod uint M = (uint a + rv r * uint b) mod uint M" .
  have "uint (bf_diff A M r a b) mod uint M = (uint ?u - uint ?v) mod uint M"
    unfolding bf_diff_def using e u v by (simp add: arith_exact_def)
  also have "\<dots> = (uint a - rv r * uint b) mod uint M"
    using ue ve by (rule mod_diff_cong)
  finally show "uint (bf_diff A M r a b) mod uint M = (uint a - rv r * uint b) mod uint M" .
qed

lemma final_sem:
  assumes r: "arith_ranges A M" and e: "arith_exact A M rv sv"
    and le: "2 * unat M < 2 ^ LENGTH('a)"
    and a: "unat (a::'a::len word) < 4 * unat M" and b: "unat b < 4 * unat M"
  shows "uint (full_reduce M (bf_sum A M r a b)) = (uint a + rv r * uint b) mod uint M"
    and "uint (full_reduce M (bf_diff A M r a b)) = (uint a - rv r * uint b) mod uint M"
  using full_reduce_uint[OF le bf_sem(1)[OF r e a b]] bf_sem(3)[OF r e a b]
        full_reduce_uint[OF le bf_sem(2)[OF r e a b]] bf_sem(4)[OF r e a b]
  by simp_all

text \<open>
  Claim C8. On a unit whose accesses are in range, the non-scalar final-round kernel
  stores the fully reduced sum term (from \<open>v0 = add(u, v)\<close>) in slot \<open>2i\<close> and the fully
  reduced difference term (from \<open>v1 = sub(u, v, 2M)\<close>) in slot \<open>2i + 1\<close>; the scalar
  kernel stores the reduced difference term in slot \<open>2i\<close> and the reduced sum term in
  slot \<open>2i + 1\<close>.
\<close>

theorem output_slot_swap:
  assumes "root_index rounds i < length rts" and "2 * i + 1 < length vs"
  shows "\<exists>out out_s.
     DwtLastRound_op A rounds M rts i vs = Some out \<and>
     DwtLastRoundScalar_op A rounds M rts sc i vs = Some out_s \<and>
     (let two_M = push_bit 1 M;
          r = rts ! (root_index rounds i);
          u = dwt_guard A (vs ! (2 * i)) two_M;
          v = dwt_mul_root A (vs ! (2 * i + 1)) r M;
          us = dwt_mul_scalar A (dwt_guard A (vs ! (2 * i)) two_M) sc M;
          vs' = dwt_mul_root A (vs ! (2 * i + 1)) (dwt_mul_root_scalar A r sc M) M
      in out ! (2 * i) = full_reduce M (dwt_add A u v) \<and>
         out ! (2 * i + 1) = full_reduce M (dwt_sub A u v two_M) \<and>
         out_s ! (2 * i) = full_reduce M (dwt_sub A us vs' two_M) \<and>
         out_s ! (2 * i + 1) = full_reduce M (dwt_add A us vs'))"
  using assms
  by (simp add: DwtLastRound_op_def DwtLastRoundScalar_op_def full_reduce_def Let_def)

theorem output_slot_swap_witness:
  "root_index 1 0 < length [1, 2::64 word] \<and> 2 * 0 + 1 < length [0, 1::64 word] \<and>
   (\<exists>out out_s.
     DwtLastRound_op spec_arith 1 (5::64 word) [1, 2::64 word] 0 [0, 1] = Some out \<and>
     DwtLastRoundScalar_op spec_arith 1 (5::64 word) [1, 2::64 word] (3::64 word) 0 [0, 1]
       = Some out_s \<and>
     (let two_M = push_bit 1 (5::64 word);
          r = [1, 2::64 word] ! root_index 1 0;
          u = dwt_guard spec_arith ([0, 1] ! (2 * 0)) two_M;
          v = dwt_mul_root spec_arith ([0, 1] ! (2 * 0 + 1)) r 5;
          us = dwt_mul_scalar spec_arith (dwt_guard spec_arith ([0, 1] ! (2 * 0)) two_M)
                 (3::64 word) 5;
          vs' = dwt_mul_root spec_arith ([0, 1] ! (2 * 0 + 1))
                 (dwt_mul_root_scalar spec_arith r (3::64 word) 5) 5
      in out ! (2 * 0) = full_reduce 5 (dwt_add spec_arith u v) \<and>
         out ! (2 * 0 + 1) = full_reduce 5 (dwt_sub spec_arith u v two_M) \<and>
         out_s ! (2 * 0) = full_reduce 5 (dwt_sub spec_arith us vs' two_M) \<and>
         out_s ! (2 * 0 + 1) = full_reduce 5 (dwt_add spec_arith us vs'))) \<and>
   DwtLastRound_op spec_arith 1 (5::64 word) [1, 2::64 word] 0 [0, 1] = Some [2, 3] \<and>
   DwtLastRoundScalar_op spec_arith 1 (5::64 word) [1, 2::64 word] (3::64 word) 0 [0, 1]
     = Some [4, 1]"
proof -
  have a: "root_index 1 0 < length [1, 2::64 word]"
    by (simp add: root_index_def)
  have b: "2 * 0 + 1 < length [0, 1::64 word]"
    by simp
  have c: "DwtLastRound_op spec_arith 1 (5::64 word) [1, 2::64 word] 0 [0, 1] = Some [2, 3]"
    by code_simp
  have d: "DwtLastRoundScalar_op spec_arith 1 (5::64 word) [1, 2::64 word] (3::64 word) 0 [0, 1]
     = Some [4, 1]"
    by code_simp
  from output_slot_swap[OF a b, of spec_arith 5 3] a b c d show ?thesis by blast
qed

subsection \<open>The unrolled kernel\<close>

lemma divmod_unroll:
  fixes q ind k :: nat
  assumes "0 < q" and "k < 4"
  shows "(4 * ind + k) div (4 * q) = ind div q"
    and "(4 * ind + k) mod (4 * q) = 4 * (ind mod q) + k"
proof -
  have lt: "4 * (ind mod q) + k < 4 * q"
  proof -
    have "ind mod q < q" using assms(1) by simp
    then have "ind mod q + 1 \<le> q" by simp
    then have "4 * (ind mod q + 1) \<le> 4 * q" by simp
    then show ?thesis using assms(2) by simp
  qed
  have "4 * ind = 4 * (ind div q * q + ind mod q)" by simp
  also have "\<dots> = 4 * (ind mod q) + ind div q * (4 * q)" by (simp only: distrib_left mult_ac add_ac)
  finally have eq: "4 * ind + k = (4 * (ind mod q) + k) + ind div q * (4 * q)"
    by simp
  show "(4 * ind + k) div (4 * q) = ind div q"
    unfolding eq using lt by simp
  show "(4 * ind + k) mod (4 * q) = 4 * (ind mod q) + k"
    unfolding eq using lt by simp
qed

lemma unrolled_Suc_bind:
  "unrolled A M r (Suc k) x y vs =
     Option.bind (butterfly A M r x y vs) (unrolled A M r k (x + 1) (y + 1))"
  by (simp split: option.splits)

lemma unrolled_4:
  "unrolled A M r 4 x y vs =
     Option.bind (Option.bind (Option.bind (butterfly A M r x y vs)
       (butterfly A M r (x + 1) (y + 1)))
       (butterfly A M r (x + 2) (y + 2)))
       (butterfly A M r (x + 3) (y + 3))"
proof -
  have n: "(4::nat) = Suc (Suc (Suc (Suc 0)))" by simp
  have a: "x + 1 + 1 = x + 2" "x + 2 + 1 = x + 3" "y + 1 + 1 = y + 2" "y + 2 + 1 = y + 3"
    by simp_all
  show ?thesis
    by (simp add: eval_nat_numeral split: option.splits Option.bind_splits)
qed

lemma DwtGapLE4_op_unrolled:
  assumes "0 < q" and "k < 4"
  shows "DwtGapLE4_op A (4 * q) rounds M rts (4 * ind + k) vs =
     (if root_index rounds (ind div q) < length rts
      then butterfly A M (rts ! (root_index rounds (ind div q)))
             (ind div q * push_bit 1 (4 * q) + ind mod q * 4 + k)
             (ind div q * push_bit 1 (4 * q) + ind mod q * 4 + 4 * q + k) vs
      else None)"
  using assms(1) divmod_unroll[OF assms]
  by (simp add: DwtGapLE4_op_def Let_def add_ac mult_ac)

lemma large_unit_as_small_units:
  assumes "0 < gap" and "4 dvd gap"
  shows "DwtLargeGap_op A 4 gap rounds M rts ind vs =
     Option.bind (Option.bind (Option.bind
       (DwtGapLE4_op A gap rounds M rts (4 * ind) vs)
       (DwtGapLE4_op A gap rounds M rts (4 * ind + 1)))
       (DwtGapLE4_op A gap rounds M rts (4 * ind + 2)))
       (DwtGapLE4_op A gap rounds M rts (4 * ind + 3))"
proof -
  from assms obtain q where g: "gap = 4 * q" and q: "0 < q" by (auto simp: dvd_def)
  have d: "gap div 4 = q" using g by simp
  define X where "X = ind div q * push_bit 1 (4 * q) + ind mod q * 4"
  define Y where "Y = X + 4 * q"
  show ?thesis
  proof (cases "root_index rounds (ind div q) < length rts")
    case True
    define r where "r = rts ! (root_index rounds (ind div q))"
    have e0: "DwtGapLE4_op A (4 * q) rounds M rts (4 * ind) w = butterfly A M r X Y w" for w
      using DwtGapLE4_op_unrolled[OF q, of 0 A rounds M rts ind w] True
      by (simp add: X_def Y_def r_def)
    have e1: "DwtGapLE4_op A (4 * q) rounds M rts (4 * ind + 1) w =
        butterfly A M r (X + 1) (Y + 1) w" for w
      using DwtGapLE4_op_unrolled[OF q, of 1 A rounds M rts ind w] True
      by (simp add: X_def Y_def r_def)
    have e2: "DwtGapLE4_op A (4 * q) rounds M rts (4 * ind + 2) w =
        butterfly A M r (X + 2) (Y + 2) w" for w
      using DwtGapLE4_op_unrolled[OF q, of 2 A rounds M rts ind w] True
      by (simp add: X_def Y_def r_def)
    have e3: "DwtGapLE4_op A (4 * q) rounds M rts (4 * ind + 3) w =
        butterfly A M r (X + 3) (Y + 3) w" for w
      using DwtGapLE4_op_unrolled[OF q, of 3 A rounds M rts ind w] True
      by (simp add: X_def Y_def r_def)
    have f1: "DwtGapLE4_op A (4 * q) rounds M rts (4 * ind + 1) = butterfly A M r (X + 1) (Y + 1)"
      and f2: "DwtGapLE4_op A (4 * q) rounds M rts (4 * ind + 2) = butterfly A M r (X + 2) (Y + 2)"
      and f3: "DwtGapLE4_op A (4 * q) rounds M rts (4 * ind + 3) = butterfly A M r (X + 3) (Y + 3)"
      by (rule ext, rule e1, rule ext, rule e2, rule ext, rule e3)
    have L: "DwtLargeGap_op A 4 (4 * q) rounds M rts ind vs = unrolled A M r 4 X Y vs"
      using q True by (simp add: DwtLargeGap_op_def Let_def X_def Y_def r_def)
    show ?thesis
      unfolding g L unrolled_4 f1 f2 f3 e0 by (rule refl)
  next
    case False
    have "DwtGapLE4_op A (4 * q) rounds M rts (4 * ind) vs = None"
      using DwtGapLE4_op_unrolled[OF q, of 0 A rounds M rts ind vs] False by simp
    moreover have "DwtLargeGap_op A 4 (4 * q) rounds M rts ind vs = None"
      using q False by (simp add: DwtLargeGap_op_def Let_def)
    ultimately show ?thesis unfolding g by simp
  qed
qed

lemma parallel_for_groups:
  "parallel_for (4 * N) K vs =
     parallel_for N (\<lambda>i v. Option.bind (Option.bind (Option.bind (K (4 * i) v)
        (K (4 * i + 1))) (K (4 * i + 2))) (K (4 * i + 3))) vs"
proof (induction N)
  case 0
  show ?case by (simp add: parallel_for_0)
next
  case (Suc N)
  let ?G = "\<lambda>i v. Option.bind (Option.bind (Option.bind (K (4 * i) v)
        (K (4 * i + 1))) (K (4 * i + 2))) (K (4 * i + 3))"
  have s: "4 * Suc N = Suc (Suc (Suc (Suc (4 * N))))" by simp
  have i: "Suc (4 * N) = 4 * N + 1" "Suc (4 * N + 1) = 4 * N + 2"
    "Suc (4 * N + 2) = 4 * N + 3" by simp_all
  have "parallel_for (4 * Suc N) K vs =
     Option.bind (Option.bind (Option.bind (Option.bind (parallel_for (4 * N) K vs)
       (K (4 * N))) (K (Suc (4 * N)))) (K (Suc (Suc (4 * N))))) (K (Suc (Suc (Suc (4 * N)))))"
    by (simp only: s parallel_for_Suc)
  also have "\<dots> =
     Option.bind (Option.bind (Option.bind (Option.bind (parallel_for N ?G vs)
       (K (4 * N))) (K (4 * N + 1))) (K (4 * N + 2))) (K (4 * N + 3))"
    by (simp only: Suc.IH i)
  also have "\<dots> = Option.bind (parallel_for N ?G vs) (?G N)"
    by (cases "parallel_for N ?G vs") (simp_all only: Option.bind.simps)
  also have "\<dots> = parallel_for (Suc N) ?G vs"
    by (simp only: parallel_for_Suc)
  finally show ?case .
qed

lemma unrolled_eq_small_gap:
  assumes "0 < gap" and "4 dvd gap"
  shows "parallel_for (m * (gap div 4)) (DwtLargeGap_op A 4 gap rounds M rts) vs =
         parallel_for (m * gap) (DwtGapLE4_op A gap rounds M rts) vs"
proof -
  have "m * gap = 4 * (m * (gap div 4))" using assms(2) by auto
  then show ?thesis
    by (simp only: parallel_for_groups large_unit_as_small_units[OF assms, symmetric])
qed

text \<open>
  Claim C7. For a gap that is a power of two at least 4, any root offset, modulus, root
  table, number of groups \<open>m\<close> and buffer, the large-gap kernel with unroll factor 4 over
  \<open>m * (gap / 4)\<close> units and the small-gap kernel over \<open>m * gap\<close> units give the same
  result: the same buffer, or both an access out of range.
\<close>

theorem unrolling_preserves_semantics:
  assumes "gap = 2 ^ e" and "2 \<le> e"
  shows "parallel_for (m * (gap div 4)) (DwtLargeGap_op A 4 gap rounds M rts) vs =
         parallel_for (m * gap) (DwtGapLE4_op A gap rounds M rts) vs"
proof -
  from assms(2) obtain e' where "e = 2 + e'" using le_Suc_ex by blast
  then have "gap = 4 * 2 ^ e'" using assms(1) by (simp add: power_add)
  then have "0 < gap" and "4 dvd gap" by simp_all
  then show ?thesis by (rule unrolled_eq_small_gap)
qed

theorem unrolling_preserves_semantics_witness:
  "(4::nat) = 2 ^ 2 \<and> (2::nat) \<le> 2 \<and>
   parallel_for (1 * (4 div 4))
     (DwtLargeGap_op spec_arith 4 4 1 (17::64 word) [1, 4, 2, 8, 3, 5, 6, 7::64 word])
     [1, 2, 3, 4, 5, 6, 7, 8]
   = parallel_for (1 * 4)
     (DwtGapLE4_op spec_arith 4 1 (17::64 word) [1, 4, 2, 8, 3, 5, 6, 7::64 word])
     [1, 2, 3, 4, 5, 6, 7, 8] \<and>
   parallel_for (1 * 4)
     (DwtGapLE4_op spec_arith 4 1 (17::64 word) [1, 4, 2, 8, 3, 5, 6, 7::64 word])
     [1, 2, 3, 4, 5, 6, 7, 8] = Some [4, 9, 14, 19, 32, 29, 26, 23]"
proof -
  have a: "(4::nat) = 2 ^ 2" and b: "(2::nat) \<le> 2" by simp_all
  have c: "parallel_for (1 * 4)
     (DwtGapLE4_op spec_arith 4 1 (17::64 word) [1, 4, 2, 8, 3, 5, 6, 7::64 word])
     [1, 2, 3, 4, 5, 6, 7, 8] = Some [4, 9, 14, 19, 32, 29, 26, 23]"
    by code_simp
  from unrolling_preserves_semantics[OF a b, of 1 spec_arith 1 17
      "[1, 4, 2, 8, 3, 5, 6, 7]" "[1, 2, 3, 4, 5, 6, 7, 8]"] a b c
  show ?thesis by blast
qed

subsection \<open>Write footprints of the interior kernels\<close>

lemma slot_div_mod:
  fixes gap i j :: nat
  assumes "j < gap"
  shows "(i * (2 * gap) + j) div (2 * gap) = i"
    and "(i * (2 * gap) + j) mod gap = j"
    and "(i * (2 * gap) + j + gap) div (2 * gap) = i"
    and "(i * (2 * gap) + j + gap) mod gap = j"
proof -
  show "(i * (2 * gap) + j) div (2 * gap) = i" using assms by simp
  have "i * (2 * gap) + j = j + (2 * i) * gap" by simp
  then show "(i * (2 * gap) + j) mod gap = j" using assms by (simp only: mod_mult_self1 mod_less)
  have e: "(i * (2 * gap) + j + gap) = (j + gap) + i * (2 * gap)" by simp
  have l: "j + gap < 2 * gap" using assms by simp
  show "(i * (2 * gap) + j + gap) div (2 * gap) = i"
    unfolding e using l by simp
  have "i * (2 * gap) + j + gap = j + (2 * i + 1) * gap" by simp
  then show "(i * (2 * gap) + j + gap) mod gap = j" using assms by (simp only: mod_mult_self1 mod_less)
qed

lemma unit_bound:
  fixes gap m ind :: nat
  assumes "ind < m * gap"
  shows "ind div gap < m" and "ind mod gap < gap" and "0 < gap"
proof -
  show g: "0 < gap" using assms by (cases gap) simp_all
  show "ind mod gap < gap" using g by simp
  show "ind div gap < m" using assms g by (simp add: less_mult_imp_div_less)
qed

lemma group_bound:
  fixes gap m i j :: nat
  assumes "i < m" and "j < 2 * gap"
  shows "i * (2 * gap) + j < 2 * gap * m"
proof -
  have "i * (2 * gap) + j < (i + 1) * (2 * gap)" using assms(2) by simp
  also have "\<dots> \<le> m * (2 * gap)" using assms(1) by (intro mult_right_mono) simp_all
  finally show ?thesis by (simp add: mult.commute)
qed

lemma DwtGapLE4_writes_unit:
  assumes "0 < gap" and "p \<in> DwtGapLE4_writes gap ind"
  shows "unit_of_slot gap p = ind"
proof -
  have j: "ind mod gap < gap" using assms(1) by simp
  from assms(2) have "p = ind div gap * (2 * gap) + ind mod gap
      \<or> p = ind div gap * (2 * gap) + ind mod gap + gap"
    by (auto simp: DwtGapLE4_writes_def Let_def push_bit_eq_mult)
  then show ?thesis
    using slot_div_mod[OF j, of "ind div gap"] by (auto simp: unit_of_slot_def)
qed

lemma DwtGapLE4_writes_props:
  assumes "ind < m * gap"
  shows "card (DwtGapLE4_writes gap ind) = 2"
    and "DwtGapLE4_writes gap ind \<subseteq> {..<2 * gap * m}"
proof -
  note b = unit_bound[OF assms]
  show "card (DwtGapLE4_writes gap ind) = 2"
    using b(3) by (simp add: DwtGapLE4_writes_def Let_def)
  have j: "ind mod gap < 2 * gap" "ind mod gap + gap < 2 * gap" using b(2) by simp_all
  have "ind div gap * (2 * gap) + ind mod gap < 2 * gap * m"
    by (rule group_bound[OF b(1) j(1)])
  moreover have "ind div gap * (2 * gap) + (ind mod gap + gap) < 2 * gap * m"
    by (rule group_bound[OF b(1) j(2)])
  ultimately show "DwtGapLE4_writes gap ind \<subseteq> {..<2 * gap * m}"
    by (simp add: DwtGapLE4_writes_def Let_def push_bit_eq_mult add.assoc)
qed

lemma butterfly_frame:
  assumes "butterfly A M r x y vs = Some vs'"
  shows "length vs' = length vs" and "p \<noteq> x \<Longrightarrow> p \<noteq> y \<Longrightarrow> vs' ! p = vs ! p"
  using assms by (auto simp: butterfly_def Let_def split: if_splits)

lemma DwtGapLE4_op_frame:
  assumes "DwtGapLE4_op A gap rounds M rts ind vs = Some vs'"
  shows "length vs' = length vs"
    and "p \<notin> DwtGapLE4_writes gap ind \<Longrightarrow> vs' ! p = vs ! p"
  using assms
  by (auto simp: DwtGapLE4_op_def DwtGapLE4_writes_def Let_def
      split: if_splits dest: butterfly_frame)

lemma lt4: "(k::nat) < 4 \<longleftrightarrow> k = 0 \<or> k = 1 \<or> k = 2 \<or> k = 3"
  by auto

lemma unrolled_slots:
  "(\<Union>k\<in>{..<4::nat}. {x + k, y + k}) = {x, x + 1, x + 2, x + 3, y, y + 1, y + 2, y + (3::nat)}"
  by (auto simp: lt4)

lemma unrolled_slots_mem:
  "p \<in> (\<Union>k\<in>{..<4::nat}. {x + k, y + k}) \<longleftrightarrow> (\<exists>k<4. p = x + k \<or> p = y + k)"
  by auto

lemma unrolled_slots_card:
  fixes x g :: nat
  assumes "4 \<le> g"
  shows "card {x, x + 1, x + 2, x + 3, x + g, x + g + 1, x + g + 2, x + g + 3} = 8"
  using assms by simp

lemma DwtLargeGap_writes_eq:
  "DwtLargeGap_writes 4 gap ind =
     (let x = ind div (gap div 4) * (2 * gap) + ind mod (gap div 4) * 4; y = x + gap
      in {x, x + 1, x + 2, x + 3, y, y + 1, y + 2, y + 3})"
  by (simp only: DwtLargeGap_writes_def Let_def unrolled_slots)
     (simp only: push_bit_eq_mult power_one_right mult.commute[of gap 2])

lemma DwtLargeGap_writes_mem:
  "p \<in> DwtLargeGap_writes 4 gap ind \<longleftrightarrow>
     (\<exists>k<4. p = ind div (gap div 4) * (2 * gap) + ind mod (gap div 4) * 4 + k \<or>
            p = ind div (gap div 4) * (2 * gap) + ind mod (gap div 4) * 4 + gap + k)"
  by (simp only: DwtLargeGap_writes_def Let_def unrolled_slots_mem)
     (simp only: push_bit_eq_mult power_one_right mult.commute[of gap 2])

lemma large_slot_bound:
  fixes gap ind k :: nat
  assumes "4 \<le> gap" and "k < 4"
  shows "ind mod (gap div 4) * 4 + k < gap"
proof -
  have q: "0 < gap div 4" using assms(1) by simp
  then have "ind mod (gap div 4) + 1 \<le> gap div 4" by (simp add: Suc_leI)
  then have "(ind mod (gap div 4) + 1) * 4 \<le> gap div 4 * 4" by (rule mult_right_mono) simp
  also have "\<dots> \<le> gap" by simp
  finally show ?thesis using assms(2) by simp
qed

lemma DwtLargeGap_writes_unit:
  assumes "4 \<le> gap" and "p \<in> DwtLargeGap_writes 4 gap ind"
  shows "unit_of_slot4 gap p = ind"
proof -
  define i where "i = ind div (gap div 4)"
  define j where "j = ind mod (gap div 4)"
  from assms(2) obtain k where k: "k < 4"
    and p: "p = i * (2 * gap) + (j * 4 + k) \<or> p = i * (2 * gap) + (j * 4 + k) + gap"
    unfolding DwtLargeGap_writes_mem i_def j_def by (auto simp only: add.assoc add.commute[of gap])
  have b: "j * 4 + k < gap" unfolding j_def by (rule large_slot_bound[OF assms(1) k])
  have d: "(j * 4 + k) div 4 = j" using k by simp
  have "p div (2 * gap) = i \<and> p mod gap = j * 4 + k"
    using p slot_div_mod[OF b, of i] by auto
  then have "unit_of_slot4 gap p = i * (gap div 4) + j"
    by (simp add: unit_of_slot4_def d)
  then show ?thesis
    unfolding i_def j_def by (simp only: div_mult_mod_eq)
qed

lemma DwtLargeGap_writes_props:
  assumes "4 \<le> gap" and "ind < m * (gap div 4)"
  shows "card (DwtLargeGap_writes 4 gap ind) = 8"
    and "DwtLargeGap_writes 4 gap ind \<subseteq> {..<2 * gap * m}"
proof -
  show "card (DwtLargeGap_writes 4 gap ind) = 8"
    unfolding DwtLargeGap_writes_eq Let_def by (rule unrolled_slots_card[OF assms(1)])
  note b = unit_bound[OF assms(2)]
  show "DwtLargeGap_writes 4 gap ind \<subseteq> {..<2 * gap * m}"
  proof
    fix p assume "p \<in> DwtLargeGap_writes 4 gap ind"
    then obtain k where k: "k < 4"
      and p: "p = ind div (gap div 4) * (2 * gap) + (ind mod (gap div 4) * 4 + k)
           \<or> p = ind div (gap div 4) * (2 * gap) + (ind mod (gap div 4) * 4 + k + gap)"
      unfolding DwtLargeGap_writes_mem by (auto simp only: add.assoc add.commute[of gap])
    have l: "ind mod (gap div 4) * 4 + k < 2 * gap" "ind mod (gap div 4) * 4 + k + gap < 2 * gap"
      using large_slot_bound[OF assms(1) k, of ind] by simp_all
    from p group_bound[OF b(1) l(1)] group_bound[OF b(1) l(2)]
    show "p \<in> {..<2 * gap * m}" by auto
  qed
qed

lemma unrolled_frame:
  assumes "unrolled A M r k x y vs = Some vs'"
  shows "length vs' = length vs \<and>
         (\<forall>p. p \<notin> (\<Union>c\<in>{..<k}. {x + c, y + c}) \<longrightarrow> vs' ! p = vs ! p)"
  using assms
proof (induction k arbitrary: x y vs)
  case 0
  then show ?case by simp
next
  case (Suc k)
  from Suc.prems obtain w where w: "butterfly A M r x y vs = Some w"
    and u: "unrolled A M r k (x + 1) (y + 1) w = Some vs'"
    by (auto split: option.splits)
  note f = butterfly_frame[OF w] and i = Suc.IH[OF u]
  show ?case
  proof (intro conjI allI impI)
    show "length vs' = length vs" using f(1) i by simp
  next
    fix p assume n: "p \<notin> (\<Union>c\<in>{..<Suc k}. {x + c, y + c})"
    have "p \<noteq> x" "p \<noteq> y" using n by (auto dest: bspec[where x = 0])
    moreover have "p \<notin> (\<Union>c\<in>{..<k}. {x + 1 + c, y + 1 + c})"
    proof
      assume "p \<in> (\<Union>c\<in>{..<k}. {x + 1 + c, y + 1 + c})"
      then obtain c where "c < k" "p = x + Suc c \<or> p = y + Suc c" by auto
      then have "p \<in> (\<Union>c\<in>{..<Suc k}. {x + c, y + c})" by (intro UN_I[of "Suc c"]) auto
      then show False using n by simp
    qed
    ultimately show "vs' ! p = vs ! p" using f(2) i by simp
  qed
qed

lemma DwtLargeGap_op_frame:
  assumes "DwtLargeGap_op A Unroll gap rounds M rts ind vs = Some vs'"
  shows "length vs' = length vs"
    and "p \<notin> DwtLargeGap_writes Unroll gap ind \<Longrightarrow> vs' ! p = vs ! p"
proof -
  from assms have u: "unrolled A M (rts ! (root_index rounds (ind div (gap div Unroll)))) Unroll
      (ind div (gap div Unroll) * push_bit 1 gap + ind mod (gap div Unroll) * Unroll)
      (ind div (gap div Unroll) * push_bit 1 gap + ind mod (gap div Unroll) * Unroll + gap) vs
      = Some vs'"
    by (simp add: DwtLargeGap_op_def Let_def split: if_splits)
  from unrolled_frame[OF u] show "length vs' = length vs" by simp
  from unrolled_frame[OF u] show "p \<notin> DwtLargeGap_writes Unroll gap ind \<Longrightarrow> vs' ! p = vs ! p"
    by (simp add: DwtLargeGap_writes_def Let_def)
qed

lemma DwtGapLE4_op_defined:
  assumes "ind < m * gap" and "2 * gap * m \<le> length vs"
    and "\<And>i. i < m \<Longrightarrow> root_index rounds i < length rts"
  shows "\<exists>vs'. DwtGapLE4_op A gap rounds M rts ind vs = Some vs'"
proof -
  note b = unit_bound[OF assms(1)]
  have "DwtGapLE4_writes gap ind \<subseteq> {..<length vs}"
    using DwtGapLE4_writes_props(2)[OF assms(1)] assms(2) by auto
  then have "ind div gap * push_bit 1 gap + ind mod gap < length vs"
    and "ind div gap * push_bit 1 gap + ind mod gap + gap < length vs"
    by (simp_all add: DwtGapLE4_writes_def Let_def)
  then show ?thesis
    using b assms(3)[OF b(1)] by (simp add: DwtGapLE4_op_def Let_def butterfly_def)
qed

lemma unrolled_defined:
  assumes "x + k \<le> length vs" and "y + k \<le> length vs"
  shows "\<exists>vs'. unrolled A M r k x y vs = Some vs'"
  using assms
proof (induction k arbitrary: x y vs)
  case 0
  then show ?case by simp
next
  case (Suc k)
  then have "x < length vs" "y < length vs" by simp_all
  then obtain w where w: "butterfly A M r x y vs = Some w"
    by (auto simp: butterfly_def Let_def)
  have "length w = length vs" by (rule butterfly_frame(1)[OF w])
  then have "\<exists>vs'. unrolled A M r k (x + 1) (y + 1) w = Some vs'"
    using Suc.prems by (intro Suc.IH) simp_all
  then show ?case using w by simp
qed

lemma DwtLargeGap_op_defined:
  assumes "4 \<le> gap" and "ind < m * (gap div 4)" and "2 * gap * m \<le> length vs"
    and "\<And>i. i < m \<Longrightarrow> root_index rounds i < length rts"
  shows "\<exists>vs'. DwtLargeGap_op A 4 gap rounds M rts ind vs = Some vs'"
proof -
  note b = unit_bound[OF assms(2)]
  define x where "x = ind div (gap div 4) * push_bit 1 gap + ind mod (gap div 4) * 4"
  have "DwtLargeGap_writes 4 gap ind \<subseteq> {..<length vs}"
    using DwtLargeGap_writes_props(2)[OF assms(1,2)] assms(3) by auto
  then have "x + gap + 3 < length vs"
    by (simp add: DwtLargeGap_writes_eq Let_def x_def push_bit_eq_mult)
  then have "x + 4 \<le> length vs" "x + gap + 4 \<le> length vs" by simp_all
  then have "\<exists>vs'. unrolled A M (rts ! (root_index rounds (ind div (gap div 4)))) 4 x (x + gap) vs = Some vs'"
    by (rule unrolled_defined)
  then show ?thesis
    using b assms(4)[OF b(1)] by (simp add: DwtLargeGap_op_def Let_def x_def)
qed

lemma unrolled_stores:
  assumes "unrolled A M r K x y vs = Some vs'" and "x + K \<le> y" and "k < K"
  shows "vs' ! (x + k) = bf_sum A M r (vs ! (x + k)) (vs ! (y + k)) \<and>
         vs' ! (y + k) = bf_diff A M r (vs ! (x + k)) (vs ! (y + k))"
  using assms
proof (induction K arbitrary: x y vs k)
  case 0
  then show ?case by simp
next
  case (Suc K)
  from Suc.prems(1) obtain w where w: "butterfly A M r x y vs = Some w"
    and u: "unrolled A M r K (x + 1) (y + 1) w = Some vs'"
    by (auto split: option.splits)
  have xl: "x < length vs \<and> y < length vs"
    using w butterfly_None[of x vs y A M r] by (cases "x < length vs \<and> y < length vs") simp_all
  then have weq: "w = vs[x := bf_sum A M r (vs ! x) (vs ! y), y := bf_diff A M r (vs ! x) (vs ! y)]"
    using w by (simp add: butterfly_Some)
  have xy: "x < y" using Suc.prems(2) by simp
  note f = unrolled_frame[OF u, THEN conjunct2, rule_format]
  show ?case
  proof (cases k)
    case 0
    have "x \<notin> (\<Union>c\<in>{..<K}. {x + 1 + c, y + 1 + c})" using xy by auto
    then have a: "vs' ! x = w ! x" by (rule f)
    have "y \<notin> (\<Union>c\<in>{..<K}. {x + 1 + c, y + 1 + c})" using Suc.prems(2) by auto
    then have b: "vs' ! y = w ! y" by (rule f)
    have "w ! x = bf_sum A M r (vs ! x) (vs ! y)" "w ! y = bf_diff A M r (vs ! x) (vs ! y)"
      using xl xy by (simp_all add: weq)
    then show ?thesis using a b 0 by simp
  next
    case (Suc k')
    then have k': "k' < K" using Suc.prems(3) by simp
    have le: "x + 1 + K \<le> y + 1" using Suc.prems(2) by simp
    note i = Suc.IH[OF u le k']
    have n: "x + 1 + k' \<noteq> x" "x + 1 + k' \<noteq> y" "y + 1 + k' \<noteq> x" "y + 1 + k' \<noteq> y"
      using Suc.prems(2) k' by simp_all
    have "w ! (x + 1 + k') = vs ! (x + 1 + k')" "w ! (y + 1 + k') = vs ! (y + 1 + k')"
      using n by (simp_all add: weq)
    then show ?thesis using i Suc by (simp add: add.assoc)
  qed
qed

text \<open>
  Claim C10. In an interior stage with \<open>2 * gap * m = n\<close> on a buffer of \<open>n\<close> slots, unit
  \<open>ind < m * gap\<close> of the small-gap launch stores the butterfly sum into slot
  \<open>x = i * 2 * gap + j\<close> and the butterfly difference into slot \<open>y = x + gap\<close>, and changes
  nothing else; these are two different slots below \<open>n\<close>. Unit \<open>ind < m * (gap / 4)\<close> of the
  large-gap launch with unroll factor 4 (\<open>gap \<ge> 4\<close>) stores, for each \<open>k < 4\<close>, the sum into
  slot \<open>x + k\<close> and the difference into slot \<open>y + k\<close>, each computed from the values the two
  slots had before the unit ran, and changes nothing else; these are eight different slots
  below \<open>n\<close>. The slot sets of distinct units of a launch are disjoint. The root index of
  the unit is taken to be inside the root table.
\<close>

theorem disjoint_write_footprint:
  fixes vs :: "'a::len word list"
  assumes "0 < gap" and "2 * gap * m = n" and "length vs = n"
  shows "(\<forall>ind < m * gap. root_index rounds (ind div gap) < length rts \<longrightarrow>
           (let x = ind div gap * (2 * gap) + ind mod gap;
                y = x + gap;
                r = rts ! root_index rounds (ind div gap)
            in DwtGapLE4_op A gap rounds M rts ind vs =
                 Some (vs[x := bf_sum A M r (vs ! x) (vs ! y),
                          y := bf_diff A M r (vs ! x) (vs ! y)]) \<and>
               DwtGapLE4_writes gap ind = {x, y} \<and>
               card (DwtGapLE4_writes gap ind) = 2 \<and> y < n \<and>
               (\<forall>ind' < m * gap. ind \<noteq> ind' \<longrightarrow>
                  DwtGapLE4_writes gap ind \<inter> DwtGapLE4_writes gap ind' = {}))) \<and>
         (4 \<le> gap \<longrightarrow>
           (\<forall>ind < m * (gap div 4). root_index rounds (ind div (gap div 4)) < length rts \<longrightarrow>
             (let x = ind div (gap div 4) * (2 * gap) + ind mod (gap div 4) * 4;
                  y = x + gap;
                  r = rts ! root_index rounds (ind div (gap div 4))
              in (\<exists>vs'. DwtLargeGap_op A 4 gap rounds M rts ind vs = Some vs' \<and>
                    length vs' = n \<and>
                    (\<forall>k<4. vs' ! (x + k) = bf_sum A M r (vs ! (x + k)) (vs ! (y + k)) \<and>
                            vs' ! (y + k) = bf_diff A M r (vs ! (x + k)) (vs ! (y + k))) \<and>
                    (\<forall>p. p \<notin> DwtLargeGap_writes 4 gap ind \<longrightarrow> vs' ! p = vs ! p)) \<and>
                 DwtLargeGap_writes 4 gap ind = {x, x + 1, x + 2, x + 3, y, y + 1, y + 2, y + 3} \<and>
                 card (DwtLargeGap_writes 4 gap ind) = 8 \<and> y + 3 < n \<and>
                 (\<forall>ind' < m * (gap div 4). ind \<noteq> ind' \<longrightarrow>
                    DwtLargeGap_writes 4 gap ind \<inter> DwtLargeGap_writes 4 gap ind' = {}))))"
proof (intro conjI allI impI)
  fix ind assume i: "ind < m * gap" and ri: "root_index rounds (ind div gap) < length rts"
  define x where "x = ind div gap * (2 * gap) + ind mod gap"
  have w: "DwtGapLE4_writes gap ind = {x, x + gap}"
    by (simp add: DwtGapLE4_writes_def Let_def x_def push_bit_eq_mult mult.commute[of gap 2])
  have c: "card (DwtGapLE4_writes gap ind) = 2"
    by (rule DwtGapLE4_writes_props(1)[OF i])
  have "DwtGapLE4_writes gap ind \<subseteq> {..<n}"
    using DwtGapLE4_writes_props(2)[OF i] assms(2) by simp
  then have b: "x < length vs" "x + gap < length vs" using w assms(3) by simp_all
  have "DwtGapLE4_op A gap rounds M rts ind vs =
      butterfly A M (rts ! root_index rounds (ind div gap)) x (x + gap) vs"
    using assms(1) ri
    by (simp add: DwtGapLE4_op_def Let_def x_def push_bit_eq_mult mult.commute[of gap 2])
  then have k: "DwtGapLE4_op A gap rounds M rts ind vs =
      Some (vs[x := bf_sum A M (rts ! root_index rounds (ind div gap)) (vs ! x) (vs ! (x + gap)),
               x + gap := bf_diff A M (rts ! root_index rounds (ind div gap)) (vs ! x)
                            (vs ! (x + gap))])"
    by (simp only: butterfly_Some[OF b])
  have d: "\<forall>ind' < m * gap. ind \<noteq> ind' \<longrightarrow>
      DwtGapLE4_writes gap ind \<inter> DwtGapLE4_writes gap ind' = {}"
  proof (intro allI impI)
    fix ind' assume "ind' < m * gap" and ne: "ind \<noteq> ind'"
    show "DwtGapLE4_writes gap ind \<inter> DwtGapLE4_writes gap ind' = {}"
      using DwtGapLE4_writes_unit[OF assms(1), of _ ind]
        DwtGapLE4_writes_unit[OF assms(1), of _ ind'] ne
      by blast
  qed
  show "let x = ind div gap * (2 * gap) + ind mod gap;
            y = x + gap;
            r = rts ! root_index rounds (ind div gap)
        in DwtGapLE4_op A gap rounds M rts ind vs =
             Some (vs[x := bf_sum A M r (vs ! x) (vs ! y),
                      y := bf_diff A M r (vs ! x) (vs ! y)]) \<and>
           DwtGapLE4_writes gap ind = {x, y} \<and>
           card (DwtGapLE4_writes gap ind) = 2 \<and> y < n \<and>
           (\<forall>ind' < m * gap. ind \<noteq> ind' \<longrightarrow>
              DwtGapLE4_writes gap ind \<inter> DwtGapLE4_writes gap ind' = {})"
    unfolding Let_def x_def[symmetric]
    using k w c b(2) assms(3) d by (intro conjI) simp_all
next
  fix ind assume g: "4 \<le> gap" and i: "ind < m * (gap div 4)"
    and ri: "root_index rounds (ind div (gap div 4)) < length rts"
  define x where "x = ind div (gap div 4) * (2 * gap) + ind mod (gap div 4) * 4"
  define r where "r = rts ! root_index rounds (ind div (gap div 4))"
  have w: "DwtLargeGap_writes 4 gap ind =
      {x, x + 1, x + 2, x + 3, x + gap, x + gap + 1, x + gap + 2, x + gap + 3}"
    by (simp only: DwtLargeGap_writes_eq Let_def x_def)
  have c: "card (DwtLargeGap_writes 4 gap ind) = 8"
    by (rule DwtLargeGap_writes_props(1)[OF g i])
  have "DwtLargeGap_writes 4 gap ind \<subseteq> {..<n}"
    using DwtLargeGap_writes_props(2)[OF g i] assms(2) by simp
  then have b: "x + gap + 3 < n" unfolding w by simp
  have q: "gap div 4 \<noteq> 0" using g by simp
  have e: "DwtLargeGap_op A 4 gap rounds M rts ind vs = unrolled A M r 4 x (x + gap) vs"
    using q ri
    by (simp add: DwtLargeGap_op_def Let_def x_def r_def push_bit_eq_mult mult.commute[of gap 2])
  have "x + 4 \<le> length vs" "x + gap + 4 \<le> length vs" using b assms(3) by simp_all
  then have "\<exists>vs'. unrolled A M r 4 x (x + gap) vs = Some vs'"
    by (rule unrolled_defined)
  then obtain vs' where u: "unrolled A M r 4 x (x + gap) vs = Some vs'" ..
  have xg: "x + 4 \<le> x + gap" using g by simp
  have s: "\<forall>k<4. vs' ! (x + k) = bf_sum A M r (vs ! (x + k)) (vs ! (x + gap + k)) \<and>
                   vs' ! (x + gap + k) = bf_diff A M r (vs ! (x + k)) (vs ! (x + gap + k))"
    using unrolled_stores[OF u xg] by blast
  have l: "length vs' = n" using unrolled_frame[OF u] assms(3) by simp
  have f: "\<forall>p. p \<notin> DwtLargeGap_writes 4 gap ind \<longrightarrow> vs' ! p = vs ! p"
    using DwtLargeGap_op_frame(2)[of A 4 gap rounds M rts ind vs vs'] e u by simp
  have d: "\<forall>ind' < m * (gap div 4). ind \<noteq> ind' \<longrightarrow>
      DwtLargeGap_writes 4 gap ind \<inter> DwtLargeGap_writes 4 gap ind' = {}"
  proof (intro allI impI)
    fix ind' assume "ind' < m * (gap div 4)" and ne: "ind \<noteq> ind'"
    show "DwtLargeGap_writes 4 gap ind \<inter> DwtLargeGap_writes 4 gap ind' = {}"
      using DwtLargeGap_writes_unit[OF g, of _ ind]
        DwtLargeGap_writes_unit[OF g, of _ ind'] ne
      by blast
  qed
  have ex: "\<exists>vs'. DwtLargeGap_op A 4 gap rounds M rts ind vs = Some vs' \<and>
            length vs' = n \<and>
            (\<forall>k<4. vs' ! (x + k) = bf_sum A M r (vs ! (x + k)) (vs ! (x + gap + k)) \<and>
                    vs' ! (x + gap + k) = bf_diff A M r (vs ! (x + k)) (vs ! (x + gap + k))) \<and>
            (\<forall>p. p \<notin> DwtLargeGap_writes 4 gap ind \<longrightarrow> vs' ! p = vs ! p)"
    using e u l s f by (intro exI[of _ vs'] conjI) simp_all
  show "let x = ind div (gap div 4) * (2 * gap) + ind mod (gap div 4) * 4;
            y = x + gap;
            r = rts ! root_index rounds (ind div (gap div 4))
        in (\<exists>vs'. DwtLargeGap_op A 4 gap rounds M rts ind vs = Some vs' \<and>
              length vs' = n \<and>
              (\<forall>k<4. vs' ! (x + k) = bf_sum A M r (vs ! (x + k)) (vs ! (y + k)) \<and>
                      vs' ! (y + k) = bf_diff A M r (vs ! (x + k)) (vs ! (y + k))) \<and>
              (\<forall>p. p \<notin> DwtLargeGap_writes 4 gap ind \<longrightarrow> vs' ! p = vs ! p)) \<and>
           DwtLargeGap_writes 4 gap ind = {x, x + 1, x + 2, x + 3, y, y + 1, y + 2, y + 3} \<and>
           card (DwtLargeGap_writes 4 gap ind) = 8 \<and> y + 3 < n \<and>
           (\<forall>ind' < m * (gap div 4). ind \<noteq> ind' \<longrightarrow>
              DwtLargeGap_writes 4 gap ind \<inter> DwtLargeGap_writes 4 gap ind' = {})"
    unfolding Let_def x_def[symmetric] r_def[symmetric]
    using ex w c b d by (intro conjI) simp_all
qed

theorem disjoint_write_footprint_witness:
  "(0::nat) < 2 \<and> 2 * 2 * 2 = (8::nat) \<and>
   length [4, 9, 14, 19, 32, 29, 26, 23::64 word] = 8 \<and>
   (3::nat) < 2 * 2 \<and> root_index 2 (3 div 2) < length [1, 4, 2, 8, 3, 5, 6, 7::64 word] \<and>
   (2::nat) < 2 * 2 \<and> (3::nat) \<noteq> 2 \<and>
   DwtGapLE4_op spec_arith 2 2 (17::64 word) [1, 4, 2, 8, 3, 5, 6, 7::64 word] 3
       [4, 9, 14, 19, 32, 29, 26, 23] =
     Some ([4, 9, 14, 19, 32, 29, 26, 23]
       [5 := bf_sum spec_arith 17 (8::64 word) 29 23,
        7 := bf_diff spec_arith 17 (8::64 word) 29 23]) \<and>
   DwtGapLE4_op spec_arith 2 2 (17::64 word) [1, 4, 2, 8, 3, 5, 6, 7::64 word] 3
       [4, 9, 14, 19, 32, 29, 26, 23] = Some [4, 9, 14, 19, 32, 43, 26, 15] \<and>
   DwtGapLE4_writes 2 3 = {5, 7} \<and> card (DwtGapLE4_writes 2 3) = 2 \<and>
   DwtGapLE4_writes 2 3 \<inter> DwtGapLE4_writes 2 2 = {} \<and>
   (0::nat) < 4 \<and> 2 * 4 * 1 = (8::nat) \<and> length [1, 2, 3, 4, 5, 6, 7, 8::64 word] = 8 \<and>
   (4::nat) \<le> 4 \<and> (0::nat) < 1 * (4 div 4) \<and>
   root_index 1 (0 div (4 div 4)) < length [1, 4, 2, 8, 3, 5, 6, 7::64 word] \<and>
   (2::nat) < 4 \<and> (1::nat) \<noteq> 0 \<and>
   (\<exists>vs'. DwtLargeGap_op spec_arith 4 4 1 (17::64 word) [1, 4, 2, 8, 3, 5, 6, 7::64 word] 0
            [1, 2, 3, 4, 5, 6, 7, 8] = Some vs' \<and>
          length vs' = 8 \<and>
          vs' ! 2 = bf_sum spec_arith 17 (4::64 word) 3 7 \<and>
          vs' ! 6 = bf_diff spec_arith 17 (4::64 word) 3 7) \<and>
   DwtLargeGap_op spec_arith 4 4 1 (17::64 word) [1, 4, 2, 8, 3, 5, 6, 7::64 word] 0
       [1, 2, 3, 4, 5, 6, 7, 8] = Some [4, 9, 14, 19, 32, 29, 26, 23] \<and>
   bf_sum spec_arith 17 (4::64 word) 3 7 = (14::64 word) \<and>
   bf_diff spec_arith 17 (4::64 word) 3 7 = (26::64 word) \<and>
   DwtLargeGap_writes 4 4 0 = {0, 1, 2, 3, 4, 5, 6, 7} \<and>
   card (DwtLargeGap_writes 4 4 0) = 8"
proof -
  let ?A = "spec_arith :: (64 word, 64 word, 64 word) dwt_arith"
  let ?rts = "[1, 4, 2, 8, 3, 5, 6, 7::64 word]"
  let ?v = "[4, 9, 14, 19, 32, 29, 26, 23::64 word]"
  let ?u = "[1, 2, 3, 4, 5, 6, 7, 8::64 word]"
  have a1: "(0::nat) < 2" and a2: "2 * 2 * 2 = (8::nat)" and a3: "length ?v = 8"
    and a4: "(3::nat) < 2 * 2" and a6: "(2::nat) < 2 * 2" and a7: "(3::nat) \<noteq> 2"
    by simp_all
  have r3: "root_index 2 (3 div 2) = 3" by code_simp
  then have a5: "root_index 2 (3 div 2) < length ?rts" by simp
  have b1: "(0::nat) < 4" and b2: "2 * 4 * 1 = (8::nat)" and b3: "length ?u = 8"
    and b4: "(4::nat) \<le> 4" and b5: "(0::nat) < 1 * (4 div 4)" and b7: "(2::nat) < 4"
    and b8: "(1::nat) \<noteq> 0"
    by simp_all
  have r1: "root_index 1 (0 div (4 div 4)) = 1" by code_simp
  then have b6: "root_index 1 (0 div (4 div 4)) < length ?rts" by simp
  note s = disjoint_write_footprint[OF a1 a2 a3, where A = ?A and rounds = 2 and M = 17
      and rts = ?rts, THEN conjunct1, rule_format, OF a4 a5, unfolded Let_def]
  note l = disjoint_write_footprint[OF b1 b2 b3, where A = ?A and rounds = 1 and M = 17
      and rts = ?rts, THEN conjunct2, rule_format, OF b4 b5 b6, unfolded Let_def]
  have ix: "3 div 2 * (2 * 2) + 3 mod 2 = (5::nat)" "(5::nat) + 2 = 7"
    "0 div (4 div 4) * (2 * 4) + 0 mod (4 div 4) * 4 = (0::nat)"
    by simp_all
  have s1: "DwtGapLE4_op ?A 2 2 17 ?rts 3 ?v =
     Some (?v[5 := bf_sum ?A 17 (8::64 word) 29 23, 7 := bf_diff ?A 17 (8::64 word) 29 23])"
    using s[THEN conjunct1] unfolding ix r3 by simp
  have s2: "DwtGapLE4_op ?A 2 2 17 ?rts 3 ?v = Some [4, 9, 14, 19, 32, 43, 26, 15]"
    by code_simp
  have s3: "DwtGapLE4_writes 2 3 = {5, 7}"
    using s[THEN conjunct2, THEN conjunct1] unfolding ix by simp
  have s4: "card (DwtGapLE4_writes 2 3) = 2"
    by (rule s[THEN conjunct2, THEN conjunct2, THEN conjunct1])
  have s5: "DwtGapLE4_writes 2 3 \<inter> DwtGapLE4_writes 2 2 = {}"
    by (rule s[THEN conjunct2, THEN conjunct2, THEN conjunct2, THEN conjunct2, rule_format,
          OF a6 a7])
  from l[THEN conjunct1] obtain vs' where
    o: "DwtLargeGap_op ?A 4 4 1 17 ?rts 0 ?u = Some vs'" and ln: "length vs' = 8"
    and st: "\<forall>k<4. vs' ! (0 div (4 div 4) * (2 * 4) + 0 mod (4 div 4) * 4 + k) =
        bf_sum ?A 17 (?rts ! root_index 1 (0 div (4 div 4)))
          (?u ! (0 div (4 div 4) * (2 * 4) + 0 mod (4 div 4) * 4 + k))
          (?u ! (0 div (4 div 4) * (2 * 4) + 0 mod (4 div 4) * 4 + 4 + k)) \<and>
        vs' ! (0 div (4 div 4) * (2 * 4) + 0 mod (4 div 4) * 4 + 4 + k) =
        bf_diff ?A 17 (?rts ! root_index 1 (0 div (4 div 4)))
          (?u ! (0 div (4 div 4) * (2 * 4) + 0 mod (4 div 4) * 4 + k))
          (?u ! (0 div (4 div 4) * (2 * 4) + 0 mod (4 div 4) * 4 + 4 + k))"
    by blast
  from st[rule_format, OF b7] have
    "vs' ! 2 = bf_sum ?A 17 (4::64 word) 3 7 \<and> vs' ! 6 = bf_diff ?A 17 (4::64 word) 3 7"
    unfolding ix r1 by (simp add: numeral_2_eq_2)
  then have l1: "\<exists>vs'. DwtLargeGap_op ?A 4 4 1 17 ?rts 0 ?u = Some vs' \<and> length vs' = 8 \<and>
      vs' ! 2 = bf_sum ?A 17 (4::64 word) 3 7 \<and> vs' ! 6 = bf_diff ?A 17 (4::64 word) 3 7"
    using o ln by blast
  have l2: "DwtLargeGap_op ?A 4 4 1 17 ?rts 0 ?u = Some [4, 9, 14, 19, 32, 29, 26, 23]"
    by code_simp
  have l3: "bf_sum ?A 17 (4::64 word) 3 7 = (14::64 word)"
    and l4: "bf_diff ?A 17 (4::64 word) 3 7 = (26::64 word)"
    by code_simp+
  have l5: "DwtLargeGap_writes 4 4 0 = {0, 1, 2, 3, 4, 5, 6, 7}"
    using l[THEN conjunct2, THEN conjunct1] unfolding ix by (simp add: numeral_2_eq_2)
  have l6: "card (DwtLargeGap_writes 4 4 0) = 8"
    by (rule l[THEN conjunct2, THEN conjunct2, THEN conjunct1])
  show ?thesis
    by (intro conjI; fact)
qed

subsection \<open>The accesses of a call are in range\<close>

lemma parallel_for_defined:
  assumes "\<And>ind v. ind < N \<Longrightarrow> P v \<Longrightarrow> \<exists>v'. K ind v = Some v' \<and> P v'" and "P vs"
  shows "\<exists>vs'. parallel_for N K vs = Some vs' \<and> P vs'"
  using assms(1)
proof (induction N)
  case 0
  then show ?case using assms(2) by (simp add: parallel_for_0)
next
  case (Suc N)
  have "\<exists>w. parallel_for N K vs = Some w \<and> P w"
  proof (rule Suc.IH)
    fix ind v assume "ind < N" "P v"
    then show "\<exists>v'. K ind v = Some v' \<and> P v'" using Suc.prems[of ind v] by simp
  qed
  then obtain w where w: "parallel_for N K vs = Some w" "P w" by blast
  from Suc.prems[of N w] w(2) obtain v' where "K N w = Some v'" "P v'" by auto
  then show ?case using w(1) by (simp add: parallel_for_Suc)
qed

lemma parallel_for_invariant:
  assumes "parallel_for N K vs = Some vs'" and "P vs"
    and "\<And>ind v v'. ind < N \<Longrightarrow> P v \<Longrightarrow> K ind v = Some v' \<Longrightarrow> P v'"
  shows "P vs'"
  using assms(1,3)
proof (induction N arbitrary: vs')
  case 0
  then show ?case using assms(2) by (simp add: parallel_for_0)
next
  case (Suc N)
  from Suc.prems(1) obtain w where w: "parallel_for N K vs = Some w" and k: "K N w = Some vs'"
    by (auto simp: parallel_for_Suc bind_eq_Some_conv)
  have "P w"
  proof (rule Suc.IH[OF w])
    fix ind v v' assume "ind < N" "P v" "K ind v = Some v'"
    then show "P v'" using Suc.prems(2)[of ind v v'] by simp
  qed
  then show ?case using Suc.prems(2)[of N w vs'] k by simp
qed

lemma parallel_for_None:
  assumes "ind < N" and "\<And>v. K ind v = None"
  shows "parallel_for N K vs = None"
  using assms(1)
proof (induction N)
  case 0
  then show ?case by simp
next
  case (Suc N)
  show ?case
  proof (cases "ind = N")
    case True
    then show ?thesis
      using assms(2) by (cases "parallel_for N K vs") (simp_all add: parallel_for_Suc)
  next
    case False
    then have "parallel_for N K vs = None" using Suc by simp
    then show ?thesis by (simp add: parallel_for_Suc)
  qed
qed

lemma last_kernels_defined:
  assumes "i < m" and "2 * m \<le> length vs" and "root_index rounds i < length rts"
  shows "\<exists>vs'. DwtLastRound_op A rounds M rts i vs = Some vs' \<and> length vs' = length vs"
    and "\<exists>vs'. DwtLastRoundScalar_op A rounds M rts sc i vs = Some vs' \<and> length vs' = length vs"
  using assms by (simp_all add: DwtLastRound_op_def DwtLastRoundScalar_op_def Let_def)

lemma last_kernels_None:
  assumes "length rts \<le> root_index rounds i"
  shows "DwtLastRound_op A rounds M rts i vs = None"
    and "DwtLastRoundScalar_op A rounds M rts sc i vs = None"
  using assms by (simp_all add: DwtLastRound_op_def DwtLastRoundScalar_op_def)

lemma interior_submit_defined:
  fixes obj :: "('a::len word, 'r, 's) Dwt_gpu"
  assumes "gap = 2 ^ e" and "m = 2 ^ k" and "2 * gap * m \<le> length (vals d)"
    and "\<And>i. i < m \<Longrightarrow> root_index rounds i < length (roots obj)"
  shows "\<exists>d'. (if gap < 4 then submit A obj (m * gap) (DwtGapLE4 gap rounds) d
               else submit A obj (m * gap div 4) (DwtLargeGap 4 gap rounds) d) = Some d'
            \<and> length (vals d') = length (vals d)"
proof (cases "gap < 4")
  case True
  have "\<exists>vs'. parallel_for (m * gap) (kernel_op A obj (DwtGapLE4 gap rounds)) (vals d) = Some vs'
      \<and> length vs' = length (vals d)"
  proof (rule parallel_for_defined[where P = "\<lambda>v. length v = length (vals d)"])
    fix ind and v :: "'a word list"
    assume i: "ind < m * gap" and l: "length v = length (vals d)"
    have lv: "2 * gap * m \<le> length v" using assms(3) l by simp
    from DwtGapLE4_op_defined[OF i lv assms(4)]
    obtain v' where v': "DwtGapLE4_op A gap rounds (modulus obj) (roots obj) ind v = Some v'"
      by blast
    from DwtGapLE4_op_frame(1)[OF v'] v' l
    show "\<exists>v'. kernel_op A obj (DwtGapLE4 gap rounds) ind v = Some v' \<and>
        length v' = length (vals d)"
      by simp
  qed simp
  then obtain vs' where p: "parallel_for (m * gap) (kernel_op A obj (DwtGapLE4 gap rounds)) (vals d)
      = Some vs'" and lp: "length vs' = length (vals d)" by blast
  have "submit A obj (m * gap) (DwtGapLE4 gap rounds) d =
      Some \<lparr>vals = vs', submitted = submitted d @ [(m * gap, DwtGapLE4 gap rounds)]\<rparr>"
    by (simp add: submit_def p)
  then show ?thesis using True lp by simp
next
  case False
  then have g: "4 \<le> gap" by simp
  have "2 \<le> e"
  proof (rule ccontr)
    assume "\<not> 2 \<le> e"
    then have "e = 0 \<or> e = 1" by arith
    then have "gap = 1 \<or> gap = 2" using assms(1) by auto
    then show False using g by auto
  qed
  then obtain e' where "e = 2 + e'" using le_Suc_ex by blast
  then have "gap = 4 * 2 ^ e'" using assms(1) by (simp add: power_add)
  then have n: "m * gap div 4 = m * (gap div 4)" by simp
  have "\<exists>vs'. parallel_for (m * (gap div 4)) (kernel_op A obj (DwtLargeGap 4 gap rounds)) (vals d)
        = Some vs' \<and> length vs' = length (vals d)"
  proof (rule parallel_for_defined[where P = "\<lambda>v. length v = length (vals d)"])
    fix ind and v :: "'a word list"
    assume i: "ind < m * (gap div 4)" and l: "length v = length (vals d)"
    have lv: "2 * gap * m \<le> length v" using assms(3) l by simp
    from DwtLargeGap_op_defined[OF g i lv assms(4)]
    obtain v' where v': "DwtLargeGap_op A 4 gap rounds (modulus obj) (roots obj) ind v = Some v'"
      by blast
    from DwtLargeGap_op_frame(1)[OF v'] v' l
    show "\<exists>v'. kernel_op A obj (DwtLargeGap 4 gap rounds) ind v = Some v' \<and>
        length v' = length (vals d)"
      by simp
  qed simp
  then obtain vs' where p: "parallel_for (m * (gap div 4))
      (kernel_op A obj (DwtLargeGap 4 gap rounds)) (vals d) = Some vs'"
    and lp: "length vs' = length (vals d)" by blast
  have "submit A obj (m * gap div 4) (DwtLargeGap 4 gap rounds) d =
      Some \<lparr>vals = vs', submitted = submitted d @ [(m * gap div 4, DwtLargeGap 4 gap rounds)]\<rparr>"
    by (simp add: submit_def p n)
  then show ?thesis using False lp by simp
qed

lemma loop_body_eq:
  "loop_body A obj s =
     map_option (\<lambda>d. \<lparr>cur_gap = cur_gap s div 2, cur_m = 2 * cur_m s,
                        cur_total_r = cur_total_r s + cur_m s, cur_dev = d\<rparr>)
       (if cur_gap s div 2 < 4
        then submit A obj (cur_m s * (cur_gap s div 2))
               (DwtGapLE4 (cur_gap s div 2) (int_of_size_t (cur_total_r s))) (cur_dev s)
        else submit A obj (cur_m s * (cur_gap s div 2) div 4)
               (DwtLargeGap 4 (cur_gap s div 2) (int_of_size_t (cur_total_r s))) (cur_dev s))"
  by (simp add: loop_body_def Let_def drop_bit_eq_div push_bit_eq_mult split: option.splits)

lemma iterate_body_defined:
  fixes obj :: "('a::len word, 'r, 's) Dwt_gpu"
  assumes "2 ^ L \<le> length (vals d)" and "2 ^ L \<le> length (roots obj)" and "k \<le> L - 1"
    and "1 \<le> L" and "L \<le> 31"
  shows "\<exists>s. iterate_body A obj k (loop_init (2 ^ L) d) = Some s
            \<and> length (vals (cur_dev s)) = length (vals d)"
  using assms(3)
proof (induction k)
  case 0
  show ?case by (simp add: loop_init_def)
next
  case (Suc k)
  then obtain s where s: "iterate_body A obj k (loop_init (2 ^ L) d) = Some s"
    and l: "length (vals (cur_dev s)) = length (vals d)" by auto
  have kL: "k \<le> L" "k < L" "Suc k \<le> L" using Suc.prems by simp_all
  from iterate_body_vars[OF s kL(1)]
  have v: "cur_gap s = 2 ^ (L - k)" "cur_m s = 2 ^ k" "cur_total_r s = 2 ^ k" by auto
  have g: "cur_gap s div 2 = 2 ^ (L - Suc k)"
    using v(1) pow2_half[OF kL(2)] by simp
  have "2 * 2 ^ (L - Suc k) * 2 ^ k = (2::nat) ^ (Suc (L - Suc k) + k)"
    by (simp add: power_add)
  also have "Suc (L - Suc k) + k = L" using kL by simp
  finally have a: "2 * 2 ^ (L - Suc k) * 2 ^ k \<le> length (vals (cur_dev s))"
    using assms(1) l by simp
  have "(2::nat) ^ k + 2 ^ k = 2 ^ Suc k" by simp
  also have "\<dots> \<le> 2 ^ L" using kL(3) by (intro power_increasing) simp_all
  finally have b0: "2 ^ k + 2 ^ k \<le> length (roots obj)" using assms(2) by simp
  have k30: "k \<le> 30" using kL(2) assms(5) by simp
  have b: "root_index (int_of_size_t (2 ^ k)) i < length (roots obj)" if "i < 2 ^ k" for i
    using root_index_total_r[OF k30 that] that b0 by simp
  from interior_submit_defined[OF refl refl a b, of A]
  obtain d' where X: "(if (2::nat) ^ (L - Suc k) < 4
           then submit A obj (2 ^ k * 2 ^ (L - Suc k))
                  (DwtGapLE4 (2 ^ (L - Suc k)) (int_of_size_t (2 ^ k))) (cur_dev s)
           else submit A obj (2 ^ k * 2 ^ (L - Suc k) div 4)
                  (DwtLargeGap 4 (2 ^ (L - Suc k)) (int_of_size_t (2 ^ k)))
                  (cur_dev s)) = Some d'"
    and Y: "length (vals d') = length (vals (cur_dev s))" by blast
  have "loop_body A obj s =
      Some \<lparr>cur_gap = 2 ^ (L - Suc k), cur_m = 2 * 2 ^ k, cur_total_r = 2 ^ k + 2 ^ k,
            cur_dev = d'\<rparr>"
    unfolding loop_body_eq g v(2,3) X by simp
  then show ?case using s Y l by simp
qed

lemma last_round_defined:
  fixes obj :: "('a::len word, 'r, 's) Dwt_gpu"
  assumes "2 * cur_m s \<le> length (vals (cur_dev s))"
    and "\<And>i. i < cur_m s \<Longrightarrow>
           root_index (int_of_size_t (cur_total_r s)) i < length (roots obj)"
  shows "\<exists>d'. last_round A obj s = Some d' \<and> length (vals d') = length (vals (cur_dev s))"
proof -
  define K where "K = (if scalar obj \<noteq> None
                       then DwtLastRoundScalar (int_of_size_t (cur_total_r s))
                       else DwtLastRound (int_of_size_t (cur_total_r s)))"
  have "\<exists>vs'. parallel_for (cur_m s) (kernel_op A obj K) (vals (cur_dev s)) = Some vs'
      \<and> length vs' = length (vals (cur_dev s))"
  proof (rule parallel_for_defined[where P = "\<lambda>v. length v = length (vals (cur_dev s))"])
    fix ind and v :: "'a word list"
    assume i: "ind < cur_m s" and l: "length v = length (vals (cur_dev s))"
    have lv: "2 * cur_m s \<le> length v" using assms(1) l by simp
    show "\<exists>v'. kernel_op A obj K ind v = Some v' \<and> length v' = length (vals (cur_dev s))"
      using last_kernels_defined[OF i lv assms(2)[OF i], of A "modulus obj"] l
      by (auto simp: K_def)
  qed simp
  then obtain vs' where p: "parallel_for (cur_m s) (kernel_op A obj K) (vals (cur_dev s)) = Some vs'"
    and lp: "length vs' = length (vals (cur_dev s))" by blast
  have "last_round A obj s = submit A obj (cur_m s) K (cur_dev s)"
    by (simp add: last_round_def K_def)
  then show ?thesis using p lp by (simp add: submit_def)
qed

lemma last_round_None:
  fixes obj :: "('a::len word, 'r, 's) Dwt_gpu"
  assumes "0 < cur_m s"
    and "length (roots obj) \<le> root_index (int_of_size_t (cur_total_r s)) (cur_m s - 1)"
  shows "last_round A obj s = None"
proof -
  define K where "K = (if scalar obj \<noteq> None
                       then DwtLastRoundScalar (int_of_size_t (cur_total_r s))
                       else DwtLastRound (int_of_size_t (cur_total_r s)))"
  have i: "cur_m s - 1 < cur_m s" using assms(1) by simp
  have "kernel_op A obj K (cur_m s - 1) v = None" for v
    using last_kernels_None[OF assms(2), of A "modulus obj"] by (auto simp: K_def)
  then have "parallel_for (cur_m s) (kernel_op A obj K) (vals (cur_dev s)) = None"
    by (rule parallel_for_None[OF i])
  moreover have "last_round A obj s = submit A obj (cur_m s) K (cur_dev s)"
    by (simp add: last_round_def K_def)
  ultimately show ?thesis by (simp add: submit_def)
qed

lemma root_index_wraps:
  "int_of_size_t (2 ^ 31) = - (2 ^ 31)"
  "root_index (int_of_size_t (2 ^ 31)) 0 = 2 ^ 64 - 2 ^ 31"
  by (simp_all add: int_of_size_t_def root_index_def)

text \<open>
  Claim C4, as the code has it. The root indices read in a call with \<open>n = 2 ^ log_n\<close>,
  \<open>1 \<le> log_n \<le> 31\<close>, on a buffer of \<open>n\<close> slots are all below \<open>n\<close>, and the last unit of
  the final round reads index \<open>n - 1\<close>: the call is defined exactly if the root table has
  at least \<open>n\<close> entries. A table of \<open>n - 1\<close> entries is too short. The bound on \<open>log_n\<close>
  keeps the root offset \<open>n / 2\<close> of the final round inside the \<^verbatim>\<open>int\<close> field \<^verbatim>\<open>rounds_\<close>.
\<close>

theorem root_table_size:
  fixes obj :: "('a::len word, 'r, 's) Dwt_gpu"
  assumes "1 \<le> log_n obj" and "log_n obj \<le> 31" and "length (vals d) = 2 ^ log_n obj"
  shows "(\<exists>d'. Dwt_gpu_op A obj d = Some d') \<longleftrightarrow> 2 ^ log_n obj \<le> length (roots obj)"
proof
  let ?L = "log_n obj"
  have h: "(2::nat) ^ (?L - 1) + 2 ^ (?L - 1) = 2 ^ ?L" using assms(1) by (cases ?L) simp_all
  have k30: "?L - 1 \<le> 30" using assms(2) by simp
  note ri = root_index_total_r[OF k30]
  {
    assume "\<exists>d'. Dwt_gpu_op A obj d = Some d'"
    then obtain d' s where s: "iterate_body A obj (?L - 1) (loop_init (2 ^ ?L) d) = Some s"
      and l: "last_round A obj s = Some d'"
      by (auto simp: Dwt_gpu_op_unfold[OF assms(1)] bind_eq_Some_conv)
    from iterate_body_vars[OF s] have v: "cur_m s = 2 ^ (?L - 1)" "cur_total_r s = 2 ^ (?L - 1)"
      by auto
    show "2 ^ ?L \<le> length (roots obj)"
    proof (rule ccontr)
      assume n: "\<not> 2 ^ ?L \<le> length (roots obj)"
      have "root_index (int_of_size_t (2 ^ (?L - 1))) (2 ^ (?L - 1) - 1)
          = 2 ^ (?L - 1) + (2 ^ (?L - 1) - 1)"
        by (rule ri) simp
      also have "\<dots> = 2 ^ ?L - 1" using h by simp
      finally have "length (roots obj) \<le>
          root_index (int_of_size_t (cur_total_r s)) (cur_m s - 1)"
        using n v by simp
      moreover have "0 < cur_m s" using v by simp
      ultimately have "last_round A obj s = None" by (rule last_round_None[rotated])
      then show False using l by simp
    qed
  }
  {
    assume r: "2 ^ ?L \<le> length (roots obj)"
    have "2 ^ ?L \<le> length (vals d)" using assms(3) by simp
    from iterate_body_defined[OF this r le_refl assms(1,2), of A]
    obtain s where s: "iterate_body A obj (?L - 1) (loop_init (2 ^ ?L) d) = Some s"
      and l: "length (vals (cur_dev s)) = length (vals d)" by blast
    from iterate_body_vars[OF s] have v: "cur_m s = 2 ^ (?L - 1)" "cur_total_r s = 2 ^ (?L - 1)"
      by auto
    have a: "2 * cur_m s \<le> length (vals (cur_dev s))" using v h l assms(3) by simp
    have b: "root_index (int_of_size_t (cur_total_r s)) i < length (roots obj)"
      if "i < cur_m s" for i
    proof -
      have i: "i < 2 ^ (?L - 1)" using that v by simp
      have "root_index (int_of_size_t (2 ^ (?L - 1))) i = 2 ^ (?L - 1) + i" by (rule ri[OF i])
      then show ?thesis using i h r v by simp
    qed
    from last_round_defined[OF a b, of A] obtain d' where "last_round A obj s = Some d'" by blast
    then show "\<exists>d'. Dwt_gpu_op A obj d = Some d'"
      using s by (simp add: Dwt_gpu_op_unfold[OF assms(1)])
  }
qed

theorem root_table_size_witness:
  "(1::nat) \<le> log_n \<lparr>log_n = 2, modulus = 17::64 word, roots = [1, 4, 2, 8::64 word],
       scalar = None::64 word option\<rparr> \<and>
   log_n \<lparr>log_n = 2, modulus = 17::64 word, roots = [1, 4, 2, 8::64 word],
       scalar = None::64 word option\<rparr> \<le> 31 \<and>
   length (vals \<lparr>vals = [1, 2, 3, 4::64 word], submitted = []\<rparr>) =
     2 ^ log_n \<lparr>log_n = 2, modulus = 17::64 word, roots = [1, 4, 2, 8::64 word],
       scalar = None::64 word option\<rparr> \<and>
   (2::nat) ^ 2 \<le> length [1, 4, 2, 8::64 word] \<and>
   (\<exists>d'. Dwt_gpu_op spec_arith
       \<lparr>log_n = 2, modulus = 17::64 word, roots = [1, 4, 2, 8::64 word],
        scalar = None::64 word option\<rparr>
       \<lparr>vals = [1, 2, 3, 4], submitted = []\<rparr> = Some d')"
proof -
  let ?obj = "\<lparr>log_n = 2, modulus = 17::64 word, roots = [1, 4, 2, 8::64 word],
       scalar = None::64 word option\<rparr>"
  let ?d = "\<lparr>vals = [1, 2, 3, 4::64 word], submitted = []\<rparr>"
  have a: "1 \<le> log_n ?obj" and a': "log_n ?obj \<le> 31"
    and b: "length (vals ?d) = 2 ^ log_n ?obj"
    and c: "(2::nat) ^ 2 \<le> length [1, 4, 2, 8::64 word]"
    by simp_all
  have "2 ^ log_n ?obj \<le> length (roots ?obj)" by simp
  then have "\<exists>d'. Dwt_gpu_op spec_arith ?obj ?d = Some d'"
    using root_table_size[OF a a' b, of spec_arith] by blast
  with a a' b c show ?thesis by blast
qed

text \<open>With four points and a root table of \<open>n - 1 = 3\<close> entries, unit 1 of the final
  round reads index 3, outside the table.\<close>

theorem root_table_size_counterexample:
  "length [1, 4, 2::64 word] = 2 ^ 2 - 1 \<and>
   Dwt_gpu_op spec_arith
     \<lparr>log_n = 2, modulus = 17::64 word, roots = [1, 4, 2::64 word],
      scalar = None::64 word option\<rparr>
     \<lparr>vals = [1, 2, 3, 4], submitted = []\<rparr> = None \<and>
   DwtLastRound_op spec_arith (int_of_size_t 2) (17::64 word) [1, 4, 2::64 word] 1
     [13, 18, 23, 20] = None \<and>
   root_index (int_of_size_t 2) 1 = 3 \<and>
   \<not> root_index (int_of_size_t 2) 1 < 2 ^ 2 - 1"
  by code_simp

subsection \<open>Ranges of the buffer\<close>

lemma DwtLastRoundScalar_op_Some:
  assumes "root_index rounds i < length rts" and "2 * i + 1 < length vs"
  shows "DwtLastRoundScalar_op A rounds M rts sc i vs =
         Some (vs[2 * i := full_reduce M (sc_diff A M (rts ! (root_index rounds i)) sc (vs ! (2 * i)) (vs ! (2 * i + 1))),
                  2 * i + 1 := full_reduce M (sc_sum A M (rts ! (root_index rounds i)) sc (vs ! (2 * i)) (vs ! (2 * i + 1)))])"
  using assms by (simp add: DwtLastRoundScalar_op_def full_reduce_def sc_sum_def sc_diff_def Let_def)

lemma bf_ranges:
  assumes r: "arith_ranges A M" and a: "unat a < 4 * unat M" and b: "unat b < 4 * unat M"
  shows "unat (bf_sum A M r a b) < 4 * unat M"
    and "unat (bf_diff A M r a b) < 4 * unat M"
    and "unat (sc_sum A M r sc a b) < 4 * unat M"
    and "unat (sc_diff A M r sc a b) < 4 * unat M"
proof -
  let ?u = "dwt_guard A a (push_bit 1 M)"
  have u: "unat ?u < 2 * unat M" using r a by (simp add: arith_ranges_def)
  have v: "unat (dwt_mul_root A b r' M) < unat M" for r'
    using r b by (simp add: arith_ranges_def)
  have us: "unat (dwt_mul_scalar A ?u sc M) < unat M" using r u by (simp add: arith_ranges_def)
  then have us2: "unat (dwt_mul_scalar A ?u sc M) < 2 * unat M" by simp
  show "unat (bf_sum A M r a b) < 4 * unat M"
    unfolding bf_sum_def using r u v by (simp add: arith_ranges_def)
  show "unat (bf_diff A M r a b) < 4 * unat M"
    unfolding bf_diff_def using r u v by (simp add: arith_ranges_def)
  show "unat (sc_sum A M r sc a b) < 4 * unat M"
    unfolding sc_sum_def using r us2 v by (simp add: arith_ranges_def)
  show "unat (sc_diff A M r sc a b) < 4 * unat M"
    unfolding sc_diff_def using r us2 v by (simp add: arith_ranges_def)
qed

lemma below_update: "below B vs \<Longrightarrow> unat v < B \<Longrightarrow> below B (vs[p := v])"
  unfolding below_def by (metis insert_iff set_update_subset_insert subsetD)

lemma below_nth: "below B vs \<Longrightarrow> p < length vs \<Longrightarrow> unat (vs ! p) < B"
  by (simp add: below_def)

lemma butterfly_below:
  assumes "arith_ranges A M" and "below (4 * unat M) vs" and "butterfly A M r x y vs = Some vs'"
  shows "below (4 * unat M) vs'"
proof -
  from assms(3) have x: "x < length vs" and y: "y < length vs"
    by (auto simp: butterfly_def split: if_splits)
  note a = below_nth[OF assms(2) x] and b = below_nth[OF assms(2) y]
  from assms(3) have "vs' = vs[x := bf_sum A M r (vs ! x) (vs ! y), y := bf_diff A M r (vs ! x) (vs ! y)]"
    by (simp add: butterfly_Some[OF x y])
  then show ?thesis
    using bf_ranges(1,2)[OF assms(1) a b] assms(2) by (simp add: below_update)
qed

lemma unrolled_below:
  assumes "arith_ranges A M" and "below (4 * unat M) vs" and "unrolled A M r k x y vs = Some vs'"
  shows "below (4 * unat M) vs'"
  using assms(2,3)
proof (induction k arbitrary: x y vs)
  case 0
  then show ?case by simp
next
  case (Suc k)
  from Suc.prems(2) obtain w where w: "butterfly A M r x y vs = Some w"
    and u: "unrolled A M r k (x + 1) (y + 1) w = Some vs'"
    by (auto split: option.splits)
  have "below (4 * unat M) w" by (rule butterfly_below[OF assms(1) Suc.prems(1) w])
  then show ?case using u by (rule Suc.IH)
qed

lemma interior_kernel_below:
  fixes obj :: "('a::len word, 'r, 's) Dwt_gpu"
  assumes "arith_ranges A (modulus obj)" and "below (4 * unat (modulus obj)) vs"
    and "K = DwtGapLE4 gap rounds \<or> K = DwtLargeGap U gap rounds"
    and "kernel_op A obj K ind vs = Some vs'"
  shows "below (4 * unat (modulus obj)) vs'"
  using assms(3)
proof
  assume "K = DwtGapLE4 gap rounds"
  with assms(4) obtain r x y where "butterfly A (modulus obj) r x y vs = Some vs'"
    by (auto simp: DwtGapLE4_op_def Let_def split: if_splits)
  then show ?thesis by (rule butterfly_below[OF assms(1,2)])
next
  assume "K = DwtLargeGap U gap rounds"
  with assms(4) obtain r x y where "unrolled A (modulus obj) r U x y vs = Some vs'"
    by (auto simp: DwtLargeGap_op_def Let_def split: if_splits)
  then show ?thesis by (rule unrolled_below[OF assms(1,2)])
qed

lemma loop_body_below:
  fixes obj :: "('a::len word, 'r, 's) Dwt_gpu"
  assumes "arith_ranges A (modulus obj)" and "below (4 * unat (modulus obj)) (vals (cur_dev s))"
    and "loop_body A obj s = Some s'"
  shows "below (4 * unat (modulus obj)) (vals (cur_dev s'))"
proof -
  from assms(3) obtain N K where p: "parallel_for N (kernel_op A obj K) (vals (cur_dev s))
       = Some (vals (cur_dev s'))"
    and K: "K = DwtGapLE4 (cur_gap s div 2) (int_of_size_t (cur_total_r s))
          \<or> K = DwtLargeGap 4 (cur_gap s div 2) (int_of_size_t (cur_total_r s))"
    unfolding loop_body_eq by (auto split: if_splits dest: submit_Some(2))
  show ?thesis
  proof (rule parallel_for_invariant[OF p, where P = "below (4 * unat (modulus obj))"])
    show "below (4 * unat (modulus obj)) (vals (cur_dev s))" by (rule assms(2))
  next
    fix ind v v'
    assume "below (4 * unat (modulus obj)) v" and "kernel_op A obj K ind v = Some v'"
    then show "below (4 * unat (modulus obj)) v'"
      using interior_kernel_below[OF assms(1) _ K] by blast
  qed
qed

lemma iterate_body_below:
  fixes obj :: "('a::len word, 'r, 's) Dwt_gpu"
  assumes "arith_ranges A (modulus obj)" and "below (4 * unat (modulus obj)) (vals (cur_dev s0))"
    and "iterate_body A obj k s0 = Some s"
  shows "below (4 * unat (modulus obj)) (vals (cur_dev s))"
  using assms(3)
proof (induction k arbitrary: s)
  case 0
  then show ?case using assms(2) by simp
next
  case (Suc k)
  from Suc.prems obtain t where t: "iterate_body A obj k s0 = Some t"
    and b: "loop_body A obj t = Some s"
    by (auto simp: bind_eq_Some_conv)
  show ?case by (rule loop_body_below[OF assms(1) Suc.IH[OF t] b])
qed

lemma kernel_op_length:
  assumes "kernel_op A obj K ind v = Some v'"
  shows "length v' = length v"
proof (cases K)
  case (DwtGapLE4 g r)
  then show ?thesis using assms DwtGapLE4_op_frame(1) by auto
next
  case (DwtLargeGap U g r)
  then show ?thesis using assms DwtLargeGap_op_frame(1) by auto
next
  case (DwtLastRound r)
  then show ?thesis using assms
    by (auto simp: DwtLastRound_op_def Let_def split: if_splits)
next
  case (DwtLastRoundScalar r)
  then show ?thesis using assms
    by (auto simp: DwtLastRoundScalar_op_def Let_def split: if_splits option.splits)
qed

lemma submit_length:
  assumes "submit A obj N K d = Some d'"
  shows "length (vals d') = length (vals d)"
  by (rule parallel_for_invariant[OF submit_Some(2)[OF assms],
        where P = "\<lambda>v. length v = length (vals d)"])
     (simp_all add: kernel_op_length)

lemma iterate_body_length:
  assumes "iterate_body A obj k s0 = Some s"
  shows "length (vals (cur_dev s)) = length (vals (cur_dev s0))"
  using assms
proof (induction k arbitrary: s)
  case 0
  then show ?case by simp
next
  case (Suc k)
  from Suc.prems obtain t where t: "iterate_body A obj k s0 = Some t"
    and b: "loop_body A obj t = Some s"
    by (auto simp: bind_eq_Some_conv)
  from b have "length (vals (cur_dev s)) = length (vals (cur_dev t))"
    unfolding loop_body_eq by (auto split: if_splits dest: submit_length)
  then show ?case using Suc.IH[OF t] by simp
qed

lemma parallel_for_invariant_ix:
  assumes "parallel_for N K vs = Some vs'" and "I 0 vs"
    and "\<And>ind v v'. ind < N \<Longrightarrow> I ind v \<Longrightarrow> K ind v = Some v' \<Longrightarrow> I (Suc ind) v'"
  shows "I N vs'"
  using assms(1,3)
proof (induction N arbitrary: vs')
  case 0
  then show ?case using assms(2) by (simp add: parallel_for_0)
next
  case (Suc N)
  from Suc.prems(1) obtain w where w: "parallel_for N K vs = Some w" and k: "K N w = Some vs'"
    by (auto simp: parallel_for_Suc bind_eq_Some_conv)
  have "I N w"
  proof (rule Suc.IH[OF w])
    fix ind v v' assume "ind < N" "I ind v" "K ind v = Some v'"
    then show "I (Suc ind) v'" using Suc.prems(2)[of ind v v'] by simp
  qed
  then show ?case using Suc.prems(2)[of N w vs'] k by simp
qed

lemma final_pair_inv:
  fixes M :: "'a::len word"
  assumes le: "2 * unat M < 2 ^ LENGTH('a)"
    and inv: "final_inv M n i v"
    and i: "2 * i + 1 < length v"
    and X: "unat X < 4 * unat M" and Y: "unat Y < 4 * unat M"
  shows "final_inv M n (Suc i) (v[2 * i := full_reduce M X, 2 * i + 1 := full_reduce M Y])"
proof -
  from inv have l: "length v = n" and b: "below (4 * unat M) v"
    and c: "\<And>p. p < 2 * i \<Longrightarrow> p < n \<Longrightarrow> unat (v ! p) < unat M"
    by (auto simp: final_inv_def)
  have M: "0 < unat M" using X by (cases "unat M") simp_all
  have x: "unat (full_reduce M X) < unat M" and y: "unat (full_reduce M Y) < unat M"
    using full_reduce_unat[OF le X] full_reduce_unat[OF le Y] M by simp_all
  let ?v = "v[2 * i := full_reduce M X, 2 * i + 1 := full_reduce M Y]"
  have "below (4 * unat M) ?v"
    using b x y by (intro below_update) simp_all
  moreover have "unat (?v ! p) < unat M" if pp: "p < 2 * Suc i" "p < n" for p
  proof -
    from pp(1) have "p = 2 * i \<or> p = 2 * i + 1 \<or> p < 2 * i" by auto
    then consider "p = 2 * i" | "p = 2 * i + 1" | "p < 2 * i" by blast
    then show ?thesis
    proof cases
      case 1 then show ?thesis using x i by simp
    next
      case 2 then show ?thesis using y i by simp
    next
      case 3 then show ?thesis using c[OF 3 pp(2)] by simp
    qed
  qed
  ultimately show ?thesis using l by (simp add: final_inv_def)
qed

lemma final_kernel_inv:
  fixes obj :: "('a::len word, 'r, 's) Dwt_gpu"
  assumes r: "arith_ranges A (modulus obj)"
    and le: "2 * unat (modulus obj) < 2 ^ LENGTH('a)"
    and inv: "final_inv (modulus obj) n i v"
    and K: "K = DwtLastRound rounds \<or> K = DwtLastRoundScalar rounds"
    and k: "kernel_op A obj K i v = Some v'"
  shows "final_inv (modulus obj) n (Suc i) v'"
proof -
  let ?M = "modulus obj"
  from k K have ri: "root_index rounds i < length (roots obj)" and vi: "2 * i + 1 < length v"
    by (auto simp: DwtLastRound_op_def DwtLastRoundScalar_op_def
        split: if_splits option.splits)
  from inv have b: "below (4 * unat ?M) v" by (simp add: final_inv_def)
  have a0: "unat (v ! (2 * i)) < 4 * unat ?M" using below_nth[OF b] vi by simp
  have a1: "unat (v ! (2 * i + 1)) < 4 * unat ?M" by (rule below_nth[OF b vi])
  note R = bf_ranges[OF r a0 a1]
  from K show ?thesis
  proof
    assume "K = DwtLastRound rounds"
    then have "v' = v[2 * i := full_reduce ?M (bf_sum A ?M (roots obj ! (root_index rounds i))
          (v ! (2 * i)) (v ! (2 * i + 1))),
        2 * i + 1 := full_reduce ?M (bf_diff A ?M (roots obj ! (root_index rounds i))
          (v ! (2 * i)) (v ! (2 * i + 1)))]"
      using k by (simp add: DwtLastRound_op_Some[OF ri vi])
    then show ?thesis using final_pair_inv[OF le inv vi R(1) R(2)] by simp
  next
    assume s: "K = DwtLastRoundScalar rounds"
    with k obtain sc where sc: "scalar obj = Some sc" by (auto split: option.splits)
    then have "v' = v[2 * i := full_reduce ?M (sc_diff A ?M (roots obj ! (root_index rounds i)) sc
          (v ! (2 * i)) (v ! (2 * i + 1))),
        2 * i + 1 := full_reduce ?M (sc_sum A ?M (roots obj ! (root_index rounds i)) sc
          (v ! (2 * i)) (v ! (2 * i + 1)))]"
      using k s by (simp add: DwtLastRoundScalar_op_Some[OF ri vi])
    then show ?thesis using final_pair_inv[OF le inv vi R(4) R(3)] by simp
  qed
qed

lemma last_round_canonical:
  fixes obj :: "('a::len word, 'r, 's) Dwt_gpu"
  assumes r: "arith_ranges A (modulus obj)"
    and le: "2 * unat (modulus obj) < 2 ^ LENGTH('a)"
    and b: "below (4 * unat (modulus obj)) (vals (cur_dev s))"
    and n: "length (vals (cur_dev s)) = 2 * cur_m s"
    and l: "last_round A obj s = Some d'"
  shows "below (unat (modulus obj)) (vals d')"
proof -
  let ?M = "modulus obj"
  from l obtain K where p: "parallel_for (cur_m s) (kernel_op A obj K) (vals (cur_dev s))
       = Some (vals d')"
    and K: "K = DwtLastRound (int_of_size_t (cur_total_r s))
          \<or> K = DwtLastRoundScalar (int_of_size_t (cur_total_r s))"
    unfolding last_round_def by (auto split: if_splits dest: submit_Some(2))
  have "final_inv ?M (2 * cur_m s) (cur_m s) (vals d')"
  proof (rule parallel_for_invariant_ix[OF p, where I = "final_inv ?M (2 * cur_m s)"])
    show "final_inv ?M (2 * cur_m s) 0 (vals (cur_dev s))"
      using b n by (simp add: final_inv_def)
  next
    fix ind v v'
    assume "final_inv ?M (2 * cur_m s) ind v" and "kernel_op A obj K ind v = Some v'"
    then show "final_inv ?M (2 * cur_m s) (Suc ind) v'"
      by (rule final_kernel_inv[OF r le _ K])
  qed
  then have "length (vals d') = 2 * cur_m s"
    and "\<And>p. p < 2 * cur_m s \<Longrightarrow> unat (vals d' ! p) < unat ?M"
    by (auto simp: final_inv_def)
  then show ?thesis
    unfolding below_def by (metis in_set_conv_nth)
qed

text \<open>
  Claim C2. Let the primitives meet their range contracts for the modulus \<open>M\<close>, let \<open>2M\<close>
  fit the word, and let the buffer hold \<open>n = 2 ^ log_n\<close> values below \<open>4M\<close> (canonical
  residues are). Then after every interior launch all slots are below \<open>4M\<close>, and after
  the final-round launch, with or without scalar, all slots are below \<open>M\<close>.
\<close>

theorem range_invariant:
  fixes obj :: "('a::len word, 'r, 's) Dwt_gpu"
  assumes "arith_ranges A (modulus obj)"
    and "2 * unat (modulus obj) < 2 ^ LENGTH('a)"
    and "1 \<le> log_n obj"
    and "length (vals d) = 2 ^ log_n obj"
    and "\<forall>x\<in>set (vals d). unat x < 4 * unat (modulus obj)"
  shows "(\<forall>k s. k \<le> log_n obj - 1 \<longrightarrow>
            iterate_body A obj k (loop_init (2 ^ log_n obj) d) = Some s \<longrightarrow>
            (\<forall>x\<in>set (vals (cur_dev s)). unat x < 4 * unat (modulus obj))) \<and>
         (\<forall>d'. Dwt_gpu_op A obj d = Some d' \<longrightarrow>
            (\<forall>x\<in>set (vals d'). unat x < unat (modulus obj)))"
proof (intro conjI allI impI)
  let ?L = "log_n obj"
  have b0: "below (4 * unat (modulus obj)) (vals (cur_dev (loop_init (2 ^ ?L) d)))"
    using assms(5) by (simp add: below_def loop_init_def)
  {
    fix k s assume "iterate_body A obj k (loop_init (2 ^ ?L) d) = Some s"
    from iterate_body_below[OF assms(1) b0 this]
    show "\<forall>x\<in>set (vals (cur_dev s)). unat x < 4 * unat (modulus obj)"
      by (simp add: below_def)
  }
  {
    fix d' assume "Dwt_gpu_op A obj d = Some d'"
    then obtain s where s: "iterate_body A obj (?L - 1) (loop_init (2 ^ ?L) d) = Some s"
      and l: "last_round A obj s = Some d'"
      by (auto simp: Dwt_gpu_op_unfold[OF assms(3)] bind_eq_Some_conv)
    from iterate_body_vars[OF s] have v: "cur_m s = 2 ^ (?L - 1)" by auto
    have h: "(2::nat) * 2 ^ (?L - 1) = 2 ^ ?L" using assms(3) by (cases ?L) simp_all
    have "length (vals (cur_dev s)) = length (vals d)"
      using iterate_body_length[OF s] by (simp add: loop_init_def)
    then have n: "length (vals (cur_dev s)) = 2 * cur_m s" using v h assms(4) by simp
    from last_round_canonical[OF assms(1,2) iterate_body_below[OF assms(1) b0 s] n l]
    show "\<forall>x\<in>set (vals d'). unat x < unat (modulus obj)"
      by (simp add: below_def)
  }
qed

theorem range_invariant_witness:
  "arith_ranges (spec_arith :: (64 word, 64 word, 64 word) dwt_arith) 17 \<and>
   2 * unat (17::64 word) < 2 ^ LENGTH(64) \<and>
   list_all (\<lambda>x. unat x < 4 * unat (17::64 word)) [1, 2, 3, 4::64 word] \<and>
   iterate_body spec_arith
     \<lparr>log_n = 2, modulus = 17::64 word, roots = [1, 4, 2, 8::64 word],
      scalar = None::64 word option\<rparr> 1
     (loop_init (2 ^ 2) \<lparr>vals = [1, 2, 3, 4], submitted = []\<rparr>)
     = Some \<lparr>cur_gap = 2, cur_m = 2, cur_total_r = 2,
             cur_dev = \<lparr>vals = [13, 18, 23, 20], submitted = [(2, DwtGapLE4 2 1)]\<rparr>\<rparr> \<and>
   list_all (\<lambda>x. unat x < 4 * unat (17::64 word)) [13, 18, 23, 20::64 word] \<and>
   Dwt_gpu_op spec_arith
     \<lparr>log_n = 2, modulus = 17::64 word, roots = [1, 4, 2, 8::64 word],
      scalar = None::64 word option\<rparr>
     \<lparr>vals = [1, 2, 3, 4], submitted = []\<rparr>
     = Some \<lparr>vals = [15, 11, 13, 16],
             submitted = [(2, DwtGapLE4 2 1), (2, DwtLastRound 2)]\<rparr> \<and>
   list_all (\<lambda>x. unat x < unat (17::64 word)) [15, 11, 13, 16::64 word]"
proof -
  let ?obj = "\<lparr>log_n = 2, modulus = 17::64 word, roots = [1, 4, 2, 8::64 word],
      scalar = None::64 word option\<rparr>"
  let ?d = "\<lparr>vals = [1, 2, 3, 4::64 word], submitted = []\<rparr>"
  let ?s = "\<lparr>cur_gap = 2, cur_m = 2, cur_total_r = 2,
             cur_dev = \<lparr>vals = [13, 18, 23, 20::64 word], submitted = [(2, DwtGapLE4 2 1)]\<rparr>\<rparr>"
  let ?d' = "\<lparr>vals = [15, 11, 13, 16::64 word],
             submitted = [(2, DwtGapLE4 2 1), (2, DwtLastRound 2)]\<rparr>"
  have r: "arith_ranges (spec_arith :: (64 word, 64 word, 64 word) dwt_arith) (modulus ?obj)"
    by (rule spec_arith_ranges) simp_all
  have h: "2 * unat (modulus ?obj) < 2 ^ LENGTH(64)" "1 \<le> log_n ?obj"
    "length (vals ?d) = 2 ^ log_n ?obj"
    "\<forall>x\<in>set (vals ?d). unat x < 4 * unat (modulus ?obj)"
    by simp_all
  have i: "iterate_body spec_arith ?obj 1 (loop_init (2 ^ 2) ?d) = Some ?s" by code_simp
  have g: "Dwt_gpu_op spec_arith ?obj ?d = Some ?d'" by code_simp
  note t = range_invariant[OF r h]
  have k: "(1::nat) \<le> log_n ?obj - 1" by simp
  have i': "iterate_body spec_arith ?obj 1 (loop_init (2 ^ log_n ?obj) ?d) = Some ?s"
    using i by simp
  have c1: "\<forall>x\<in>set (vals (cur_dev ?s)). unat x < 4 * unat (modulus ?obj)"
    by (rule t[THEN conjunct1, THEN spec, THEN spec, THEN mp, THEN mp, OF k i'])
  have c2: "\<forall>x\<in>set (vals ?d'). unat x < unat (modulus ?obj)"
    by (rule t[THEN conjunct2, THEN spec, THEN mp, OF g])
  have r': "arith_ranges (spec_arith :: (64 word, 64 word, 64 word) dwt_arith) 17"
    using r by simp
  have h1: "2 * unat (17::64 word) < 2 ^ LENGTH(64)" by simp
  have h4: "list_all (\<lambda>x. unat x < 4 * unat (17::64 word)) [1, 2, 3, 4::64 word]" by simp
  have c1': "list_all (\<lambda>x. unat x < 4 * unat (17::64 word)) [13, 18, 23, 20::64 word]"
    using c1 unfolding list_all_iff by simp
  have c2': "list_all (\<lambda>x. unat x < unat (17::64 word)) [15, 11, 13, 16::64 word]"
    using c2 unfolding list_all_iff by simp
  show ?thesis
    by (intro conjI; fact)
qed

subsection \<open>The scalar final round\<close>

lemma sc_sem:
  assumes r: "arith_ranges A M" and e: "arith_exact A M rv sv"
    and a: "unat a < 4 * unat M" and b: "unat b < 4 * unat M"
  shows "uint (sc_sum A M r sc a b) mod uint M = (sv sc * (uint a + rv r * uint b)) mod uint M"
    and "uint (sc_diff A M r sc a b) mod uint M = (sv sc * (uint a - rv r * uint b)) mod uint M"
proof -
  let ?g = "dwt_guard A a (push_bit 1 M)"
  let ?u = "dwt_mul_scalar A ?g sc M"
  let ?sr = "dwt_mul_root_scalar A r sc M"
  let ?v = "dwt_mul_root A b ?sr M"
  have g: "unat ?g < 2 * unat M" using r a by (simp add: arith_ranges_def)
  have u: "unat ?u < unat M" using r g by (simp add: arith_ranges_def)
  then have u2: "unat ?u < 2 * unat M" by simp
  have v: "unat ?v < unat M" using r b by (simp add: arith_ranges_def)
  have ge: "uint ?g mod uint M = uint a mod uint M" using e a by (simp add: arith_exact_def)
  have "uint ?u mod uint M = (uint ?g * sv sc) mod uint M"
    using e g by (simp add: arith_exact_def)
  also have "\<dots> = (uint a * sv sc) mod uint M"
    using ge by (rule mod_mult_cong) simp
  finally have ue: "uint ?u mod uint M = (sv sc * uint a) mod uint M"
    by (simp add: mult.commute)
  have sre: "rv ?sr mod uint M = (rv r * sv sc) mod uint M"
    using e by (simp add: arith_exact_def)
  have "uint ?v mod uint M = (uint b * rv ?sr) mod uint M"
    using e b by (simp add: arith_exact_def)
  also have "\<dots> = (uint b * (rv r * sv sc)) mod uint M"
    using sre by (rule mod_mult_cong[OF refl])
  finally have ve: "uint ?v mod uint M = (sv sc * (rv r * uint b)) mod uint M"
    by (simp add: mult_ac)
  have "uint (sc_sum A M r sc a b) mod uint M = (uint ?u + uint ?v) mod uint M"
    unfolding sc_sum_def using e u2 v by (simp add: arith_exact_def)
  also have "\<dots> = (sv sc * uint a + sv sc * (rv r * uint b)) mod uint M"
    using ue ve by (rule mod_add_cong)
  finally show "uint (sc_sum A M r sc a b) mod uint M
      = (sv sc * (uint a + rv r * uint b)) mod uint M"
    by (simp add: distrib_left)
  have "uint (sc_diff A M r sc a b) mod uint M = (uint ?u - uint ?v) mod uint M"
    unfolding sc_diff_def using e u2 v by (simp add: arith_exact_def)
  also have "\<dots> = (sv sc * uint a - sv sc * (rv r * uint b)) mod uint M"
    using ue ve by (rule mod_diff_cong)
  finally show "uint (sc_diff A M r sc a b) mod uint M
      = (sv sc * (uint a - rv r * uint b)) mod uint M"
    by (simp add: right_diff_distrib)
qed

text \<open>What the two final-round kernels store for one pair \<open>(a, b)\<close>, under the
  contracts: the non-scalar kernel \<open>(a + r b) mod M\<close> and \<open>(a - r b) mod M\<close>, the scalar
  kernel \<open>s (a - r b) mod M\<close> and \<open>s (a + r b) mod M\<close>, in this order.\<close>

lemma final_units_sem:
  fixes M :: "'a::len word"
  assumes r: "arith_ranges A M" and e: "arith_exact A M rv sv"
    and le: "2 * unat M < 2 ^ LENGTH('a)"
    and ri: "root_index rounds i < length rts" and vi: "2 * i + 1 < length vs"
    and b: "below (4 * unat M) vs"
  shows "\<exists>out out_s.
      DwtLastRound_op A rounds M rts i vs = Some out \<and>
      DwtLastRoundScalar_op A rounds M rts sc i vs = Some out_s \<and>
      uint (out ! (2 * i)) =
        (uint (vs ! (2 * i)) + rv (rts ! (root_index rounds i)) * uint (vs ! (2 * i + 1))) mod uint M \<and>
      uint (out ! (2 * i + 1)) =
        (uint (vs ! (2 * i)) - rv (rts ! (root_index rounds i)) * uint (vs ! (2 * i + 1))) mod uint M \<and>
      uint (out_s ! (2 * i)) =
        (sv sc * (uint (vs ! (2 * i)) - rv (rts ! (root_index rounds i)) * uint (vs ! (2 * i + 1))))
          mod uint M \<and>
      uint (out_s ! (2 * i + 1)) =
        (sv sc * (uint (vs ! (2 * i)) + rv (rts ! (root_index rounds i)) * uint (vs ! (2 * i + 1))))
          mod uint M"
proof -
  have a0: "unat (vs ! (2 * i)) < 4 * unat M" using below_nth[OF b] vi by simp
  have a1: "unat (vs ! (2 * i + 1)) < 4 * unat M" by (rule below_nth[OF b vi])
  note R = bf_ranges[OF r a0 a1]
  note F = final_sem[OF r e le a0 a1]
  note S = sc_sem[OF r e a0 a1]
  have i0: "2 * i < length vs" using vi by simp
  show ?thesis
    unfolding DwtLastRound_op_Some[OF ri vi] DwtLastRoundScalar_op_Some[OF ri vi]
    using vi i0 F full_reduce_uint[OF le R(3)] full_reduce_uint[OF le R(4)] S
    by simp
qed

text \<open>
  Claim C3 fails on the code. With modulus 5, root 2, scalar 3 and the buffer \<open>[0, 1]\<close>,
  the non-scalar final round gives \<open>[2, 3]\<close>, which scaled by 3 is \<open>[1, 4]\<close>; the
  scalar-merged final round gives \<open>[4, 1]\<close>: the two slots of the pair exchanged.
\<close>

theorem scalar_merge_divergence:
  "final_then_scale spec_arith 1 1 (5::64 word) [1, 2::64 word] (3::64 word) [0, 1]
     = Some [1, 4] \<and>
   final_scalar_merged spec_arith 1 1 (5::64 word) [1, 2::64 word] (3::64 word) [0, 1]
     = Some [4, 1]"
  by code_simp

subsection \<open>The two-point call\<close>




subsection \<open>The round trip\<close>

lemma two_point_run:
  fixes obj :: "('a::len word, 'r, 's) Dwt_gpu"
  assumes "log_n obj = 1" and "2 \<le> length (roots obj)"
  shows "scalar obj = None \<Longrightarrow>
           Dwt_gpu_op A obj \<lparr>vals = [a, b], submitted = []\<rparr> =
           Some \<lparr>vals = [full_reduce (modulus obj) (bf_sum A (modulus obj) (roots obj ! 1) a b),
                         full_reduce (modulus obj) (bf_diff A (modulus obj) (roots obj ! 1) a b)],
                 submitted = [(1, DwtLastRound 1)]\<rparr>"
    and "scalar obj = Some sc \<Longrightarrow>
           Dwt_gpu_op A obj \<lparr>vals = [a, b], submitted = []\<rparr> =
           Some \<lparr>vals = [full_reduce (modulus obj) (sc_diff A (modulus obj) (roots obj ! 1) sc a b),
                         full_reduce (modulus obj) (sc_sum A (modulus obj) (roots obj ! 1) sc a b)],
                 submitted = [(1, DwtLastRoundScalar 1)]\<rparr>"
proof -
  let ?M = "modulus obj"
  let ?r = "roots obj ! 1"
  have l: "1 \<le> log_n obj" using assms(1) by simp
  have ri: "root_index 1 0 < length (roots obj)" using assms(2) by (simp add: root_index_1_0)
  have vi: "2 * 0 + 1 < length [a, b]" by simp
  {
    assume n: "scalar obj = None"
    have k: "DwtLastRound_op A 1 ?M (roots obj) 0 [a, b] =
       Some [full_reduce ?M (bf_sum A ?M ?r a b), full_reduce ?M (bf_diff A ?M ?r a b)]"
      using DwtLastRound_op_Some[OF ri vi, of A ?M] by (simp add: root_index_1_0)
    have p: "parallel_for 1 (kernel_op A obj (DwtLastRound 1)) [a, b] =
       Some [full_reduce ?M (bf_sum A ?M ?r a b), full_reduce ?M (bf_diff A ?M ?r a b)]"
      using k by (simp add: parallel_for_def)
    show "Dwt_gpu_op A obj \<lparr>vals = [a, b], submitted = []\<rparr> =
       Some \<lparr>vals = [full_reduce ?M (bf_sum A ?M ?r a b), full_reduce ?M (bf_diff A ?M ?r a b)],
             submitted = [(1, DwtLastRound 1)]\<rparr>"
      using p assms(1) n
      by (simp add: Dwt_gpu_op_unfold[OF l] last_round_def submit_def loop_init_def
          root_index_1_0)
  }
  {
    assume s: "scalar obj = Some sc"
    have k: "DwtLastRoundScalar_op A 1 ?M (roots obj) sc 0 [a, b] =
       Some [full_reduce ?M (sc_diff A ?M ?r sc a b), full_reduce ?M (sc_sum A ?M ?r sc a b)]"
      using DwtLastRoundScalar_op_Some[OF ri vi, of A ?M sc] by (simp add: root_index_1_0)
    have p: "parallel_for 1 (kernel_op A obj (DwtLastRoundScalar 1)) [a, b] =
       Some [full_reduce ?M (sc_diff A ?M ?r sc a b), full_reduce ?M (sc_sum A ?M ?r sc a b)]"
      using k s by (simp add: parallel_for_def)
    show "Dwt_gpu_op A obj \<lparr>vals = [a, b], submitted = []\<rparr> =
       Some \<lparr>vals = [full_reduce ?M (sc_diff A ?M ?r sc a b),
                     full_reduce ?M (sc_sum A ?M ?r sc a b)],
             submitted = [(1, DwtLastRoundScalar 1)]\<rparr>"
      using p assms(1) s
      by (simp add: Dwt_gpu_op_unfold[OF l] last_round_def submit_def loop_init_def
          root_index_1_0)
  }
qed

lemma final_sc_sem:
  fixes M :: "'a::len word"
  assumes r: "arith_ranges A M" and e: "arith_exact A M rv sv"
    and le: "2 * unat M < 2 ^ LENGTH('a)"
    and a: "unat (a::'a::len word) < 4 * unat M" and b: "unat b < 4 * unat M"
  shows "uint (full_reduce M (sc_diff A M r sc a b)) = (sv sc * (uint a - rv r * uint b)) mod uint M"
    and "uint (full_reduce M (sc_sum A M r sc a b)) = (sv sc * (uint a + rv r * uint b)) mod uint M"
proof -
  have ri: "root_index 1 0 < length [r, r]" by (simp add: root_index_1_0)
  have vi: "2 * 0 + 1 < length [a, b]" by simp
  have bl: "below (4 * unat M) [a, b]" using a b by (simp add: below_def)
  have k: "DwtLastRoundScalar_op A 1 M [r, r] sc 0 [a, b] =
     Some [full_reduce M (sc_diff A M r sc a b), full_reduce M (sc_sum A M r sc a b)]"
    using DwtLastRoundScalar_op_Some[OF ri vi, of A M sc] by (simp add: root_index_1_0)
  from final_units_sem[OF r e le ri vi bl, of sc] k
  show "uint (full_reduce M (sc_diff A M r sc a b)) = (sv sc * (uint a - rv r * uint b)) mod uint M"
    and "uint (full_reduce M (sc_sum A M r sc a b)) = (sv sc * (uint a + rv r * uint b)) mod uint M"
    by (auto simp: root_index_1_0)
qed

lemma round_trip_two:
  fixes fw bw :: "('a::len word, 'r, 's) Dwt_gpu"
  assumes r: "arith_ranges A M" and e: "arith_exact A M rv sv"
    and le: "2 * unat M < 2 ^ LENGTH('a)" and M: "0 < unat M"
    and f: "log_n fw = 1" "modulus fw = M" "scalar fw = None" "2 \<le> length (roots fw)"
    and i: "log_n bw = 1" "modulus bw = M" "scalar bw = Some s" "2 \<le> length (roots bw)"
    and a: "unat a < 4 * unat M" and b: "unat b < 4 * unat M"
  shows "\<exists>x y. round_trip A fw bw [a, b] = Some [x, y] \<and>
           uint x = (sv s * ((uint a + rv (roots fw ! 1) * uint b) mod uint M
                       - rv (roots bw ! 1) * ((uint a - rv (roots fw ! 1) * uint b) mod uint M)))
                     mod uint M \<and>
           uint y = (sv s * ((uint a + rv (roots fw ! 1) * uint b) mod uint M
                       + rv (roots bw ! 1) * ((uint a - rv (roots fw ! 1) * uint b) mod uint M)))
                     mod uint M"
proof -
  let ?r = "roots fw ! 1" and ?r' = "roots bw ! 1"
  define u where "u = full_reduce M (bf_sum A M ?r a b)"
  define v where "v = full_reduce M (bf_diff A M ?r a b)"
  have uu: "uint u = (uint a + rv ?r * uint b) mod uint M"
    and uv: "uint v = (uint a - rv ?r * uint b) mod uint M"
    unfolding u_def v_def by (rule final_sem[OF r e le a b])+
  have Mp: "0 < uint M" using M by (metis of_nat_0_less_iff uint_nat)
  have "uint u < uint M" "uint v < uint M" unfolding uu uv using Mp by simp_all
  then have "u < M" "v < M" by (simp_all add: word_less_def)
  then have "unat u < unat M" "unat v < unat M"
    by (simp_all add: word_less_nat_alt)
  then have u4: "unat u < 4 * unat M" and v4: "unat v < 4 * unat M" by simp_all
  have 1: "Dwt_gpu_op A fw \<lparr>vals = [a, b], submitted = []\<rparr> =
      Some \<lparr>vals = [u, v], submitted = [(1, DwtLastRound 1)]\<rparr>"
    using two_point_run(1)[OF f(1,4) f(3), of A a b] by (simp add: f(2) u_def v_def)
  have 2: "Dwt_gpu_op A bw \<lparr>vals = [u, v], submitted = []\<rparr> =
      Some \<lparr>vals = [full_reduce M (sc_diff A M ?r' s u v), full_reduce M (sc_sum A M ?r' s u v)],
            submitted = [(1, DwtLastRoundScalar 1)]\<rparr>"
    using two_point_run(2)[OF i(1,4) i(3), of A u v] by (simp add: i(2))
  have rt: "round_trip A fw bw [a, b] =
      Some [full_reduce M (sc_diff A M ?r' s u v), full_reduce M (sc_sum A M ?r' s u v)]"
    by (simp add: round_trip_def 1 2)
  show ?thesis
    unfolding rt using final_sc_sem[OF r e le u4 v4, of ?r' s] by (simp add: uu uv)
qed

text \<open>
  Claim C1 fails on the code, for every choice of the inverse root table and of the
  scalar. The engine only runs the forward butterfly network; a second call with another
  root table and a scalar runs the same network again and does not undo the first. For
  \<open>log_n = 1\<close> (where the bit-reversal permutation is the identity), with primitives that
  meet their contracts and a modulus \<open>M > 1\<close>: if the forward root \<open>r\<close> in slot 1 is not 1
  modulo \<open>M\<close> (a primitive fourth root of unity never is), then whatever the inverse
  table and the scalar are, the round trip does not return both of the buffers \<open>[1, 0]\<close>
  and \<open>[0, 1]\<close>.
\<close>

theorem round_trip_two_point:
  fixes fw bw :: "('a::len word, 'r, 's) Dwt_gpu"
  assumes "arith_ranges A M" and "arith_exact A M rv sv"
    and "2 * unat M < 2 ^ LENGTH('a)" and "1 < unat M"
    and "log_n fw = 1" and "modulus fw = M" and "scalar fw = None" and "2 \<le> length (roots fw)"
    and "log_n bw = 1" and "modulus bw = M" and "scalar bw = Some s" and "2 \<le> length (roots bw)"
    and "rv (roots fw ! 1) mod uint M \<noteq> 1"
  shows "\<not> (round_trip A fw bw [1, 0] = Some [1, 0] \<and>
            round_trip A fw bw [0, 1] = Some [0, 1])"
proof
  assume "round_trip A fw bw [1, 0] = Some [1, 0] \<and> round_trip A fw bw [0, 1] = Some [0, 1]"
  then have t1: "round_trip A fw bw [1, 0] = Some [1, 0]"
    and t2: "round_trip A fw bw [0, 1] = Some [0, 1]" by simp_all
  define m where "m = uint M"
  define q where "q = rv (roots fw ! 1)"
  define p where "p = rv (roots bw ! 1)"
  define c where "c = sv s"
  have M0: "0 < unat M" using assms(4) by simp
  have m1: "1 < m" using assms(4) unfolding m_def
    by (metis of_nat_1 of_nat_less_iff uint_nat)
  have c1: "unat (1::'a word) < 4 * unat M" "unat (0::'a word) < 4 * unat M"
    using assms(4) by simp_all
  from round_trip_two[OF assms(1,2,3) M0 assms(5-12) c1(1) c1(2)] t1
  have "uint (1::'a word) = (c * ((uint (1::'a word) + q * uint (0::'a word)) mod m
      - p * ((uint (1::'a word) - q * uint (0::'a word)) mod m))) mod m"
    by (auto simp: m_def q_def p_def c_def)
  moreover have u1: "uint (1::'a word) = 1" by simp
  ultimately have A1: "(c * (1 - p)) mod m = 1" using m1 by (simp add: right_diff_distrib)
  from round_trip_two[OF assms(1,2,3) M0 assms(5-12) c1(2) c1(1)] t2
  have "uint (1::'a word) = (c * ((uint (0::'a word) + q * uint (1::'a word)) mod m
      + p * ((uint (0::'a word) - q * uint (1::'a word)) mod m))) mod m"
    by (auto simp: m_def q_def p_def c_def)
  then have A2: "(c * (q mod m + p * ((- q) mod m))) mod m = 1" using u1 by simp
  have e1: "c * (q + p * (- q)) = q * (c * (1 - p))" by (simp add: algebra_simps)
  have "q mod m = (q * 1) mod m" by simp
  also have "\<dots> = (q * (c * (1 - p))) mod m"
    by (intro mod_mult_cong refl) (simp add: A1 m1)
  also have "\<dots> = (c * (q + p * (- q))) mod m" by (simp only: e1)
  also have "\<dots> = (c * (q mod m + p * ((- q) mod m))) mod m"
    by (intro mod_mult_cong mod_add_cong refl) simp_all
  also have "\<dots> = 1" by (rule A2)
  finally have "q mod m = 1" .
  then show False using assms(13) by (simp add: q_def m_def)
qed

theorem round_trip_two_point_witness:
  "arith_ranges (spec_arith :: (64 word, 64 word, 64 word) dwt_arith) 5 \<and>
   arith_exact (spec_arith :: (64 word, 64 word, 64 word) dwt_arith) 5 uint uint \<and>
   2 * unat (5::64 word) < 2 ^ LENGTH(64) \<and> 1 < unat (5::64 word) \<and>
   uint ([1, 2::64 word] ! 1) mod uint (5::64 word) \<noteq> 1 \<and>
   \<not> (round_trip spec_arith
          \<lparr>log_n = 1, modulus = 5::64 word, roots = [1, 2::64 word],
           scalar = None::64 word option\<rparr>
          \<lparr>log_n = 1, modulus = 5::64 word, roots = [1, 3::64 word],
           scalar = Some (3::64 word)\<rparr> [1, 0] = Some [1, 0] \<and>
        round_trip spec_arith
          \<lparr>log_n = 1, modulus = 5::64 word, roots = [1, 2::64 word],
           scalar = None::64 word option\<rparr>
          \<lparr>log_n = 1, modulus = 5::64 word, roots = [1, 3::64 word],
           scalar = Some (3::64 word)\<rparr> [0, 1] = Some [0, 1]) \<and>
   round_trip spec_arith
     \<lparr>log_n = 1, modulus = 5::64 word, roots = [1, 2::64 word],
      scalar = None::64 word option\<rparr>
     \<lparr>log_n = 1, modulus = 5::64 word, roots = [1, 3::64 word],
      scalar = Some (3::64 word)\<rparr> [1, 0] = Some [4, 2] \<and>
   round_trip spec_arith
     \<lparr>log_n = 1, modulus = 5::64 word, roots = [1, 2::64 word],
      scalar = None::64 word option\<rparr>
     \<lparr>log_n = 1, modulus = 5::64 word, roots = [1, 3::64 word],
      scalar = Some (3::64 word)\<rparr> [0, 1] = Some [4, 3]"
proof -
  let ?A = "spec_arith :: (64 word, 64 word, 64 word) dwt_arith"
  let ?fw = "\<lparr>log_n = 1, modulus = 5::64 word, roots = [1, 2::64 word],
      scalar = None::64 word option\<rparr>"
  let ?bw = "\<lparr>log_n = 1, modulus = 5::64 word, roots = [1, 3::64 word],
      scalar = Some (3::64 word)\<rparr>"
  have r: "arith_ranges ?A 5"
    by (rule spec_arith_ranges) simp_all
  have e: "arith_exact ?A 5 uint uint"
    by (rule spec_arith_exact) simp_all
  have h: "2 * unat (5::64 word) < 2 ^ LENGTH(64)" "1 < unat (5::64 word)"
    by simp_all
  have f: "log_n ?fw = 1" "modulus ?fw = 5" "scalar ?fw = None" "2 \<le> length (roots ?fw)"
    by simp_all
  have b: "log_n ?bw = 1" "modulus ?bw = 5" "scalar ?bw = Some 3" "2 \<le> length (roots ?bw)"
    by simp_all
  have q: "uint (roots ?fw ! 1) mod uint (5::64 word) \<noteq> 1" by simp
  then have q': "uint ([1, 2::64 word] ! 1) mod uint (5::64 word) \<noteq> 1" by simp
  have t: "\<not> (round_trip ?A ?fw ?bw [1, 0] = Some [1, 0] \<and>
        round_trip ?A ?fw ?bw [0, 1] = Some [0, 1])"
    by (rule round_trip_two_point[OF r e h f b q])
  have c1: "round_trip ?A ?fw ?bw [1, 0] = Some [4, 2]" by code_simp
  have c2: "round_trip ?A ?fw ?bw [0, 1] = Some [4, 3]" by code_simp
  show ?thesis
    by (intro conjI; fact)
qed

text \<open>With modulus 5, \<open>\<psi> = 2\<close> (so \<open>\<psi>\<^sup>2 = -1\<close>), the inverse root \<open>3\<close> and the scalar
  \<open>3 = 1/2\<close>, the forward call turns \<open>[0, 1]\<close> into \<open>[2, 3]\<close> and the second call turns
  that into \<open>[4, 3]\<close>. With four points, modulus 17 and \<open>\<psi> = 2\<close>, the inverse powers
  stored as the header describes and the scalar \<open>13 = 1/4\<close>, the round trip turns
  \<open>[1, 2, 3, 4]\<close> into \<open>[0, 15, 3, 14]\<close>.\<close>

theorem round_trip_counterexample:
  "(2 * 2) mod 5 = (5 - 1::int) \<and> (2 * 3) mod 5 = (1::int) \<and>
   Dwt_gpu_op spec_arith
     \<lparr>log_n = 1, modulus = 5::64 word, roots = [1, 2::64 word],
      scalar = None::64 word option\<rparr>
     \<lparr>vals = [0, 1], submitted = []\<rparr>
     = Some \<lparr>vals = [2, 3], submitted = [(1, DwtLastRound 1)]\<rparr> \<and>
   Dwt_gpu_op spec_arith
     \<lparr>log_n = 1, modulus = 5::64 word, roots = [1, 3::64 word],
      scalar = Some (3::64 word)\<rparr>
     \<lparr>vals = [2, 3], submitted = []\<rparr>
     = Some \<lparr>vals = [4, 3], submitted = [(1, DwtLastRoundScalar 1)]\<rparr> \<and>
   round_trip spec_arith
     \<lparr>log_n = 1, modulus = 5::64 word, roots = [1, 2::64 word],
      scalar = None::64 word option\<rparr>
     \<lparr>log_n = 1, modulus = 5::64 word, roots = [1, 3::64 word],
      scalar = Some (3::64 word)\<rparr> [0, 1] = Some [4, 3] \<and>
   [4, 3] \<noteq> [0, 1::64 word] \<and>
   (2 * 9) mod 17 = (1::int) \<and> (4 * 13) mod 17 = (1::int) \<and>
   round_trip spec_arith
     \<lparr>log_n = 2, modulus = 17::64 word, roots = [1, 4, 2, 8::64 word],
      scalar = None::64 word option\<rparr>
     \<lparr>log_n = 2, modulus = 17::64 word, roots = [1, 9, 15, 13::64 word],
      scalar = Some (13::64 word)\<rparr> [1, 2, 3, 4] = Some [0, 15, 3, 14] \<and>
   [0, 15, 3, 14] \<noteq> [1, 2, 3, 4::64 word] \<and>
   [0, 15, 3, 14] \<noteq> [1, 3, 2, 4::64 word]"
  by code_simp

end
